theory Spec2Isabelle
  imports Complex_Main
begin

section \<open>Texts and character classes\<close>

text \<open>
  A Python \<open>str\<close> is a sequence of Unicode code points: a text that reaches the program in a
  request is a list of natural numbers. The string literals of the program itself are ASCII
  and are written as \<^typ>\<open>string\<close>; \<open>str\<close> gives the text of a literal and \<open>ord\<close> the code
  point of a character.
\<close>

type_synonym pystr = "nat list"

definition ord :: "char \<Rightarrow> nat" where
  "ord c = of_char c"

definition str :: "string \<Rightarrow> pystr" where
  "str s = map ord s"

text \<open>
  On code points below 256 the classes of the \<open>re\<close> module and the case conversions are
  written out below. Up to 127, \<open>\d\<close> is \<open>0-9\<close>, \<open>\w\<close> is \<open>[A-Za-z0-9_]\<close>, \<open>\s\<close> is the white
  space of \<open>str.isspace\<close> (codes 9 to 13, 28 to 31 and 32), and \<open>lower\<close>/\<open>upper\<close> map \<open>A-Z\<close> to
  \<open>a-z\<close> and back. From 128 to 255 there is no digit; \<open>\w\<close> matches the letters (192 to 255
  without the signs 215 and 247, the ordinal indicators 170 and 186 and the micro sign 181),
  the superscripts 178, 179 and 185 and the fractions 188 to 190; \<open>\s\<close> matches the next-line
  character 133 and the no-break space 160; \<open>lower\<close> maps the capital letters 192 to 222 to
  the small ones 32 further on, and \<open>upper\<close> maps back, but sends the sharp s (223) to \<open>SS\<close>,
  the micro sign to the Greek capital mu (924) and the y with diaeresis (255) to its capital
  (376).

  Beyond, Python consults the tables of the Unicode character database, which are not part
  of the program. They are a parameter of the model about which nothing is assumed but its
  shape: \<open>unicode_tables\<close> gives, for each code point, its class (a decimal digit, which \<open>\d\<close>
  and \<open>\w\<close> match; another alphanumeric character, which \<open>\w\<close> matches; white space, which
  \<open>\s\<close> matches; or none of these), and the texts that \<open>str.lower\<close> and \<open>str.upper\<close> put in
  its place, which may depend on the characters to its left and to its right (as for the
  Greek final sigma) and may be of any length. Whatever is proved below holds for every such
  tables, so for those of any Python version.
\<close>

datatype uclass = Decimal | Alnum | Space | Other

definition unicode_tables ::
  "unit \<Rightarrow> (nat \<Rightarrow> uclass) \<times> (pystr \<Rightarrow> nat \<Rightarrow> pystr \<Rightarrow> pystr)
           \<times> (pystr \<Rightarrow> nat \<Rightarrow> pystr \<Rightarrow> pystr)" where
  "unicode_tables u = undefined u"

definition unicode_class :: "nat \<Rightarrow> uclass" where
  "unicode_class c = fst (unicode_tables ()) c"

definition unicode_lower :: "pystr \<Rightarrow> nat \<Rightarrow> pystr \<Rightarrow> pystr" where
  "unicode_lower left c right = fst (snd (unicode_tables ())) left c right"

definition unicode_upper :: "pystr \<Rightarrow> nat \<Rightarrow> pystr \<Rightarrow> pystr" where
  "unicode_upper left c right = snd (snd (unicode_tables ())) left c right"

definition is_digit :: "nat \<Rightarrow> bool" where
  "is_digit c = (if c < 256 then 48 \<le> c \<and> c \<le> 57 else unicode_class c = Decimal)"

text \<open>The ranges \<open>A-Z\<close> and \<open>a-z\<close>, as \<open>[A-Z]\<close> in a pattern means them.\<close>

definition is_upper :: "nat \<Rightarrow> bool" where
  "is_upper c = (65 \<le> c \<and> c \<le> 90)"

definition is_lower :: "nat \<Rightarrow> bool" where
  "is_lower c = (97 \<le> c \<and> c \<le> 122)"

definition latin1_word :: "nat \<Rightarrow> bool" where
  "latin1_word c =
     (c = 170 \<or> c = 178 \<or> c = 179 \<or> c = 181 \<or> c = 185 \<or> c = 186
      \<or> (188 \<le> c \<and> c \<le> 190) \<or> (192 \<le> c \<and> c \<le> 214) \<or> (216 \<le> c \<and> c \<le> 246)
      \<or> (248 \<le> c \<and> c \<le> 255))"

definition is_word :: "nat \<Rightarrow> bool" where
  "is_word c =
     (if c < 128 then is_digit c \<or> is_upper c \<or> is_lower c \<or> c = 95
      else if c < 256 then latin1_word c
      else unicode_class c = Decimal \<or> unicode_class c = Alnum)"

definition is_space :: "nat \<Rightarrow> bool" where
  "is_space c =
     (if c < 256
      then c = 32 \<or> (9 \<le> c \<and> c \<le> 13) \<or> (28 \<le> c \<and> c \<le> 31) \<or> c = 133 \<or> c = 160
      else unicode_class c = Space)"

text \<open>The dot of a pattern: any character but the newline.\<close>

definition is_dot :: "nat \<Rightarrow> bool" where
  "is_dot c = (c \<noteq> 10)"

definition latin1_lower :: "nat \<Rightarrow> pystr" where
  "latin1_lower c =
     [if is_upper c \<or> (192 \<le> c \<and> c \<le> 214) \<or> (216 \<le> c \<and> c \<le> 222) then c + 32 else c]"

definition latin1_upper :: "nat \<Rightarrow> pystr" where
  "latin1_upper c =
     (if c = 223 then [83, 83] else if c = 181 then [924] else if c = 255 then [376]
      else [if is_lower c \<or> (224 \<le> c \<and> c \<le> 246) \<or> (248 \<le> c \<and> c \<le> 254)
            then c - 32 else c])"

fun lower_from :: "pystr \<Rightarrow> pystr \<Rightarrow> pystr" where
  "lower_from left [] = []"
| "lower_from left (c # cs) =
     (if c < 256 then latin1_lower c else unicode_lower left c cs)
     @ lower_from (left @ [c]) cs"

fun upper_from :: "pystr \<Rightarrow> pystr \<Rightarrow> pystr" where
  "upper_from left [] = []"
| "upper_from left (c # cs) =
     (if c < 256 then latin1_upper c else unicode_upper left c cs)
     @ upper_from (left @ [c]) cs"

definition lower :: "pystr \<Rightarrow> pystr" where
  "lower s = lower_from [] s"

definition upper :: "pystr \<Rightarrow> pystr" where
  "upper s = upper_from [] s"

fun starts_with :: "pystr \<Rightarrow> pystr \<Rightarrow> bool" where
  "starts_with [] s = True"
| "starts_with (p # ps) [] = False"
| "starts_with (p # ps) (c # cs) = (p = c \<and> starts_with ps cs)"

text \<open>Python's \<open>sub in s\<close> on strings.\<close>

fun contains :: "pystr \<Rightarrow> pystr \<Rightarrow> bool" where
  "contains sub [] = (sub = [])"
| "contains sub (c # cs) = (starts_with sub (c # cs) \<or> contains sub cs)"

section \<open>The regular expressions of the \<open>re\<close> module that the program uses\<close>

text \<open>
  The patterns of the program are built from ASCII literals, character classes, greedy bounded
  repetition of a class (\<open>*\<close>, \<open>+\<close>, \<open>{m}\<close>, \<open>{m,n}\<close>, \<open>{m,}\<close>), the greedy option \<open>?\<close>, the word
  boundary \<open>\b\<close>, concatenation and alternation. A cursor is the text that is left together
  with the fact whether the character before it is a word character, which is what \<open>\b\<close>
  looks at. \<open>run r c\<close> lists the cursors at which a match of \<open>r\<close> started at \<open>c\<close> can end, in
  the order in which the backtracking matcher of \<open>re\<close> tries them, so its head is the match
  that \<open>re\<close> reports.
\<close>

datatype rx =
    Lit string
  | Cls "nat \<Rightarrow> bool"
  | Rep "nat \<Rightarrow> bool" nat "nat option"
  | Opt rx
  | Bnd
  | Seq rx rx
  | Alt rx rx

type_synonym cursor = "bool \<times> pystr"

fun rep_run :: "(nat \<Rightarrow> bool) \<Rightarrow> nat \<Rightarrow> nat option \<Rightarrow> cursor \<Rightarrow> cursor list" where
  "rep_run p lo hi (w, []) = (if lo = 0 then [(w, [])] else [])"
| "rep_run p lo hi (w, c # cs) =
     (if p c \<and> hi \<noteq> Some 0
      then rep_run p (lo - 1) (map_option (\<lambda>h. h - 1) hi) (is_word c, cs) else [])
     @ (if lo = 0 then [(w, c # cs)] else [])"

fun run :: "rx \<Rightarrow> cursor \<Rightarrow> cursor list" where
  "run (Lit l) (w, s) =
     (if starts_with (str l) s
      then [(if l = [] then w else is_word (ord (last l)), drop (length l) s)]
      else [])"
| "run (Cls p) (w, s) =
     (case s of [] \<Rightarrow> [] | c # cs \<Rightarrow> if p c then [(is_word c, cs)] else [])"
| "run (Rep p lo hi) c = rep_run p lo hi c"
| "run (Opt r) c = run r c @ [c]"
| "run Bnd (w, s) =
     (if w \<noteq> (case s of [] \<Rightarrow> False | c # cs \<Rightarrow> is_word c) then [(w, s)] else [])"
| "run (Seq a b) c = concat (map (run b) (run a c))"
| "run (Alt a b) c = run a c @ run b c"

text \<open>\<open>bool(re.search(r, s))\<close>: is there a match starting at some position.\<close>

fun search_from :: "rx \<Rightarrow> cursor \<Rightarrow> bool" where
  "search_from r (w, []) = (run r (w, []) \<noteq> [])"
| "search_from r (w, c # cs) = (run r (w, c # cs) \<noteq> [] \<or> search_from r (is_word c, cs))"

definition re_search :: "rx \<Rightarrow> pystr \<Rightarrow> bool" where
  "re_search r s = search_from r (False, s)"

text \<open>
  \<open>re.findall(r, s)\<close> for a pattern without capturing groups: the matched texts, left to
  right, each search resuming where the previous match ended. None of the program's patterns
  matches the empty string; for one that did, the scan moves on by one character.
\<close>

function findall_from :: "rx \<Rightarrow> cursor \<Rightarrow> pystr list" where
  "findall_from r (w, s) =
     (case run r (w, s) of
        [] \<Rightarrow> (case s of [] \<Rightarrow> [] | c # cs \<Rightarrow> findall_from r (is_word c, cs))
      | (w', s') # _ \<Rightarrow>
          if length s' < length s
          then take (length s - length s') s # findall_from r (w', s')
          else [] # (case s of [] \<Rightarrow> [] | c # cs \<Rightarrow> findall_from r (is_word c, cs)))"
  by pat_completeness auto
termination
  by (relation "measure (\<lambda>(r, w, s). length s)") auto

definition findall :: "rx \<Rightarrow> pystr \<Rightarrow> pystr list" where
  "findall r s = findall_from r (False, s)"

definition cat :: "rx list \<Rightarrow> rx" where
  "cat rs = foldr Seq rs (Lit [])"

definition alts :: "string list \<Rightarrow> rx" where
  "alts ls = foldr (\<lambda>l r. Alt (Lit l) r) (butlast ls) (Lit (last ls))"

definition dotstar :: rx where
  "dotstar = Rep is_dot 0 None"

section \<open>Scam detection\<close>

text \<open>
  \<open>ScamDetector.SCAM_PATTERNS\<close>: the categories in the order of the dictionary, each with its
  patterns in order. Every \<open>.*\<close> is a greedy run of characters other than a newline.
\<close>

definition SCAM_PATTERNS :: "(string \<times> rx list) list" where
  "SCAM_PATTERNS =
    [(''bank_fraud'',
       [cat [Lit ''bank account'', dotstar, alts [''blocked'', ''suspended'', ''frozen'']],
        cat [Lit ''verify'', dotstar, alts [''account'', ''identity'', ''details'']],
        cat [Lit ''account'', dotstar, alts [''deactivated'', ''locked'', ''closed'']],
        cat [Lit ''update'', dotstar, alts [''kyc'', ''pan'', ''aadhar'']],
        cat [Lit ''unauthorized'', dotstar, Lit ''transaction'']]),
     (''upi_fraud'',
       [cat [Lit ''upi'', dotstar, alts [''blocked'', ''suspended'']],
        cat [Lit ''share'', dotstar, Lit ''upi'', dotstar, Lit ''id''],
        cat [Lit ''send'', dotstar, Lit ''money'', dotstar, Lit ''verify''],
        cat [Lit ''payment'', dotstar, Lit ''pending''],
        cat [Lit ''refund'', dotstar, Lit ''upi'']]),
     (''phishing'',
       [cat [Lit ''click'', dotstar, Lit ''link'', dotstar,
             alts [''verify'', ''update'', ''confirm'']],
        cat [Lit ''download'', dotstar, Lit ''app'', dotstar, Lit ''urgently''],
        cat [Lit ''install'', dotstar, Lit ''certificate''],
        cat [Lit ''login'', dotstar, alts [''immediately'', ''now'', ''urgent'']],
        cat [Lit ''reset'', dotstar, Lit ''password'', dotstar, Lit ''click'']]),
     (''fake_offers'',
       [cat [Lit ''congratulations'', dotstar, alts [''won'', ''winner'', ''prize'']],
        cat [Lit ''lottery'', dotstar, Lit ''won''],
        cat [Lit ''claim'', dotstar, alts [''prize'', ''reward'', ''gift'']],
        cat [Lit ''limited'', dotstar, Lit ''time'', dotstar, Lit ''offer''],
        cat [Lit ''exclusive'', dotstar, Lit ''deal'', dotstar, Lit ''today'']]),
     (''impersonation'',
       [cat [alts [''police'', ''court'', ''tax'', ''income tax'', ''gst''], dotstar,
             alts [''notice'', ''penalty'', ''arrest'']],
        cat [Lit ''legal'', dotstar, Lit ''action'', dotstar, Lit ''against''],
        cat [Lit ''warrant'', dotstar, Lit ''issued''],
        cat [Lit ''customs'', dotstar, Lit ''clearance''],
        cat [Lit ''government'', dotstar, alts [''refund'', ''scheme'']]]),
     (''otp_fraud'',
       [cat [Lit ''share'', dotstar, Lit ''otp''],
        cat [Lit ''send'', dotstar, Lit ''code'', dotstar, Lit ''verification''],
        cat [Lit ''otp'', dotstar, alts [''expire'', ''valid'']],
        cat [Lit ''confirmation'', dotstar, Lit ''code''],
        cat [Lit ''security'', dotstar, Lit ''code'', dotstar, Lit ''verify'']])]"

definition urgency_words :: "string list" where
  "urgency_words = [''urgent'', ''immediately'', ''now'', ''today'', ''asap'', ''quickly'',
     ''hurry'', ''fast'', ''soon'', ''expire'', ''limited time'']"

definition threat_words :: "string list" where
  "threat_words = [''blocked'', ''suspended'', ''arrested'', ''penalty'', ''legal action'',
     ''freeze'', ''deactivated'', ''locked'', ''cancelled'', ''terminated'']"

definition action_words :: "string list" where
  "action_words = [''verify'', ''confirm'', ''click'', ''share'', ''send'', ''update'',
     ''provide'', ''submit'', ''enter'', ''transfer'']"

definition request_words :: "string list" where
  "request_words = [''account'', ''password'', ''otp'', ''code'', ''upi'', ''card'', ''cvv'',
     ''pin'', ''aadhar'', ''pan'']"

text \<open>\<open>sum(1 for word in words if word in text_lower)\<close>\<close>

definition count_in :: "string list \<Rightarrow> pystr \<Rightarrow> nat" where
  "count_in words text_lower = length (filter (\<lambda>word. contains (str word) text_lower) words)"

text \<open>\<open>https?://|www\.|\w+\.(com|in|org|net|xyz|click|top)\<close>\<close>

definition url_rx :: rx where
  "url_rx =
     Alt (cat [Lit ''http'', Opt (Lit ''s''), Lit ''://''])
    (Alt (Lit ''www.'')
         (cat [Rep is_word 1 None, Lit ''.'',
               alts [''com'', ''in'', ''org'', ''net'', ''xyz'', ''click'', ''top'']]))"

text \<open>\<open>@(paytm|phonepe|gpay|upi|ybl|oksbi|okaxis|okicici)\<close>\<close>

definition upi_handle_rx :: rx where
  "upi_handle_rx =
     cat [Lit ''@'', alts [''paytm'', ''phonepe'', ''gpay'', ''upi'', ''ybl'', ''oksbi'',
                          ''okaxis'', ''okicici'']]"

text \<open>\<open>\+?\d{10,}\<close>\<close>

definition phone_rx :: rx where
  "phone_rx = cat [Opt (Lit ''+''), Rep is_digit 10 None]"

text \<open>
  The first category, in dictionary order, one of whose patterns is found in the lower-cased
  text: the two nested \<open>for\<close> loops of \<open>detect\<close> with their \<open>return\<close>.
\<close>

fun first_category :: "(string \<times> rx list) list \<Rightarrow> pystr \<Rightarrow> string option" where
  "first_category [] text_lower = None"
| "first_category ((scam_type, patterns) # rest) text_lower =
     (if list_ex (\<lambda>pattern. re_search pattern text_lower) patterns then Some scam_type
      else first_category rest text_lower)"

text \<open>
  The score is a Python float as soon as \<open>action_count * 1.5\<close> enters the sum. Every value
  involved is a multiple of one half far below \<open>2^53\<close>, so the float arithmetic is exact and
  the score is modelled as a real number.
\<close>

definition scam_score :: "pystr \<Rightarrow> real" where
  "scam_score text =
     (let text_lower = lower text;
          urgency_count = count_in urgency_words text_lower;
          threat_count = count_in threat_words text_lower;
          action_count = count_in action_words text_lower;
          request_count = count_in request_words text_lower;
          has_url = re_search url_rx text_lower;
          has_upi = re_search upi_handle_rx text_lower;
          has_phone = re_search phone_rx text
      in real urgency_count * 2 + real threat_count * 3 + real action_count * 1.5
         + real request_count * 2
         + (if has_url then 3 else 0) + (if has_upi then 2 else 0)
         + (if has_phone then 1 else 0))"

definition detect :: "pystr \<Rightarrow> bool \<times> string option" where
  "detect text =
     (case first_category SCAM_PATTERNS (lower text) of
        Some scam_type \<Rightarrow> (True, Some scam_type)
      | None \<Rightarrow> if scam_score text \<ge> 4 then (True, Some ''generic_scam'') else (False, None))"

section \<open>Sessions\<close>

record Message =
  msg_sender :: pystr
  msg_text :: pystr
  msg_timestamp :: int

record ExtractedIntelligence =
  bankAccounts :: "pystr list"
  upiIds :: "pystr list"
  phishingLinks :: "pystr list"
  phoneNumbers :: "pystr list"
  suspiciousKeywords :: "pystr list"

text \<open>
  A session is the dictionary that \<open>get_session\<close> creates. The key \<open>final_result_sent\<close> is
  absent until \<open>send_final_result\<close> stores \<open>True\<close> under it and is only read with the default
  \<open>False\<close>, so it is a Boolean field that starts as \<open>False\<close>. \<open>engagement_count\<close> starts at 0
  and is only ever incremented.
\<close>

record session =
  messages :: "Message list"
  intelligence :: ExtractedIntelligence
  scam_detected :: bool
  engagement_count :: nat
  should_continue :: bool
  scam_type :: "string option"
  final_result_sent :: bool

record FinalResultPayload =
  p_sessionId :: pystr
  p_scamDetected :: bool
  p_totalMessagesExchanged :: nat
  p_extractedIntelligence :: "(string \<times> pystr list) list"
  p_agentNotes :: string

text \<open>
  What the program does to the outside, in order: the requests it posts to the reporting
  endpoint, the pauses between attempts, and the log lines around the final report.
\<close>

datatype event =
    LogTrigger pystr
  | LogAlreadySent pystr
  | HttpPost FinalResultPayload
  | LogSent pystr int
  | Sleep nat
  | LogFailed pystr
  | LogCritical pystr

record world =
  sessions :: "pystr \<rightharpoonup> session"
  trace :: "event list"

definition new_session :: session where
  "new_session =
     \<lparr>messages = [],
      intelligence = \<lparr>bankAccounts = [], upiIds = [], phishingLinks = [], phoneNumbers = [],
                      suspiciousKeywords = []\<rparr>,
      scam_detected = False, engagement_count = 0, should_continue = True,
      scam_type = None, final_result_sent = False\<rparr>"

text \<open>\<open>SessionManager.get_session\<close>: the session, created first when the id is new.\<close>

definition get_session :: "pystr \<Rightarrow> world \<Rightarrow> session \<times> world" where
  "get_session session_id w =
     (case sessions w session_id of
        Some s \<Rightarrow> (s, w)
      | None \<Rightarrow> (new_session, w\<lparr>sessions := (sessions w)(session_id \<mapsto> new_session)\<rparr>))"

text \<open>
  The session dictionary is shared and mutated in place; \<open>modify\<close> is one such mutation of
  the session that \<open>get_session\<close> returned.
\<close>

definition modify :: "pystr \<Rightarrow> (session \<Rightarrow> session) \<Rightarrow> world \<Rightarrow> world" where
  "modify session_id f w =
     (let (s, w') = get_session session_id w
      in w'\<lparr>sessions := (sessions w')(session_id \<mapsto> f s)\<rparr>)"

section \<open>Intelligence extraction\<close>

text \<open>\<open>list(dict.fromkeys(xs))\<close>: the keys in the order of their first insertion.\<close>

definition insert_key :: "'a \<Rightarrow> 'a list \<Rightarrow> 'a list" where
  "insert_key k d = (if k \<in> set d then d else d @ [k])"

definition fromkeys :: "'a list \<Rightarrow> 'a list" where
  "fromkeys xs = fold insert_key xs []"

text \<open>\<open>s.replace(c, "")\<close> for a single character \<open>c\<close>.\<close>

definition remove_char :: "char \<Rightarrow> pystr \<Rightarrow> pystr" where
  "remove_char c s = filter (\<lambda>x. x \<noteq> ord c) s"

definition sep_class :: "nat \<Rightarrow> bool" where
  "sep_class c = (c = ord CHR ''-'' \<or> is_space c)"

text \<open>\<open>\b\d{4}[-\s]?\d{4}[-\s]?\d{4}[-\s]?\d{4}\b\<close>\<close>

definition card16_rx :: rx where
  "card16_rx =
     cat [Bnd, Rep is_digit 4 (Some 4), Opt (Cls sep_class), Rep is_digit 4 (Some 4),
          Opt (Cls sep_class), Rep is_digit 4 (Some 4), Opt (Cls sep_class),
          Rep is_digit 4 (Some 4), Bnd]"

text \<open>\<open>\b\d{9,18}\b\<close>\<close>

definition account_rx :: rx where
  "account_rx = cat [Bnd, Rep is_digit 9 (Some 18), Bnd]"

text \<open>\<open>\b[A-Z]{4}0[A-Z0-9]{6}\b\<close>\<close>

definition ifsc_rx :: rx where
  "ifsc_rx =
     cat [Bnd, Rep is_upper 4 (Some 4), Lit ''0'',
          Rep (\<lambda>c. is_upper c \<or> is_digit c) 6 (Some 6), Bnd]"

definition upi_handles :: "string list" where
  "upi_handles = [''paytm'', ''phonepe'', ''gpay'', ''upi'', ''ybl'', ''oksbi'', ''okaxis'',
     ''okicici'', ''okhdfcbank'', ''okbizaxis'', ''ibl'', ''axl'']"

text \<open>\<open>\b[\w\.-]+@handle\b\<close>, one pattern for each handle of \<open>upi_patterns\<close>.\<close>

definition upi_rx :: "string \<Rightarrow> rx" where
  "upi_rx handle =
     cat [Bnd, Rep (\<lambda>c. is_word c \<or> c = ord CHR ''.'' \<or> c = ord CHR ''-'') 1 None,
          Lit (''@'' @ handle), Bnd]"

definition non_space :: "nat \<Rightarrow> bool" where
  "non_space c = (\<not> is_space c)"

text \<open>\<open>https?://[^\s]+\<close>, \<open>www\.[^\s]+\<close> and
  \<open>\b[\w-]+\.(?:com|in|org|net|co\.in|xyz|click|top|online|site|info|biz)[^\s]*\<close>\<close>

definition http_rx :: rx where
  "http_rx = cat [Lit ''http'', Opt (Lit ''s''), Lit ''://'', Rep non_space 1 None]"

definition www_rx :: rx where
  "www_rx = cat [Lit ''www.'', Rep non_space 1 None]"

definition domain_rx :: rx where
  "domain_rx =
     cat [Bnd, Rep (\<lambda>c. is_word c \<or> c = ord CHR ''-'') 1 None, Lit ''.'',
          alts [''com'', ''in'', ''org'', ''net'', ''co.in'', ''xyz'', ''click'', ''top'',
                ''online'', ''site'', ''info'', ''biz''],
          Rep non_space 0 None]"

text \<open>\<open>\+91[-\s]?\d{10}\<close>, \<open>\+\d{1,4}[-\s]?\d{10}\<close>, \<open>\b\d{10}\b\<close> and \<open>\b0\d{10}\b\<close>\<close>

definition phone91_rx :: rx where
  "phone91_rx = cat [Lit ''+91'', Opt (Cls sep_class), Rep is_digit 10 (Some 10)]"

definition phone_intl_rx :: rx where
  "phone_intl_rx =
     cat [Lit ''+'', Rep is_digit 1 (Some 4), Opt (Cls sep_class), Rep is_digit 10 (Some 10)]"

definition phone10_rx :: rx where
  "phone10_rx = cat [Bnd, Rep is_digit 10 (Some 10), Bnd]"

definition phone0_rx :: rx where
  "phone0_rx = cat [Bnd, Lit ''0'', Rep is_digit 10 (Some 10), Bnd]"

definition suspicious_words :: "string list" where
  "suspicious_words =
    [''urgent'', ''verify'', ''blocked'', ''suspended'', ''immediately'', ''confirm'',
     ''account'', ''bank'', ''upi'', ''payment'', ''transfer'', ''otp'', ''password'',
     ''click here'', ''limited time'', ''act now'', ''prize'', ''winner'', ''congratulations'',
     ''refund'', ''tax'', ''penalty'', ''arrest'', ''legal action'', ''freeze'',
     ''kyc'', ''update'', ''expired'', ''deactivated'', ''unauthorized'', ''suspicious'',
     ''claim'', ''reward'', ''lottery'', ''won'', ''cashback'', ''offer'', ''deal'',
     ''hurry'', ''last chance'', ''final notice'', ''warrant'', ''court'', ''police'',
     ''customs'', ''delivery'', ''parcel'', ''package'', ''courier'', ''fedex'', ''dhl'',
     ''amazon'', ''flipkart'', ''security'', ''code'', ''pin'', ''cvv'', ''card'',
     ''government'', ''official'', ''department'', ''notice'', ''billing'', ''invoice'']"

text \<open>What one text contributes to each of the five lists, before deduplication.\<close>

definition found_bank_accounts :: "pystr \<Rightarrow> pystr list" where
  "found_bank_accounts text =
     (let bank_accounts =
            findall card16_rx text @ findall account_rx text @ findall ifsc_rx (upper text)
      in map (\<lambda>acc. remove_char CHR ''-'' (remove_char CHR '' '' acc)) bank_accounts)"

definition found_upi_ids :: "pystr \<Rightarrow> pystr list" where
  "found_upi_ids text = concat (map (\<lambda>handle. findall (upi_rx handle) (lower text)) upi_handles)"

definition found_urls :: "pystr \<Rightarrow> pystr list" where
  "found_urls text = findall http_rx text @ findall www_rx text @ findall domain_rx text"

definition found_phones :: "pystr \<Rightarrow> pystr list" where
  "found_phones text =
     findall phone91_rx text @ findall phone_intl_rx text @ findall phone10_rx text
     @ findall phone0_rx text"

definition found_keywords :: "pystr \<Rightarrow> pystr list" where
  "found_keywords text =
     (let text_lower = lower text
      in map str (filter (\<lambda>word. contains (str word) text_lower) suspicious_words))"

definition extract_into :: "pystr \<Rightarrow> ExtractedIntelligence \<Rightarrow> ExtractedIntelligence" where
  "extract_into text intel =
     \<lparr>bankAccounts = fromkeys (bankAccounts intel @ found_bank_accounts text),
      upiIds = fromkeys (upiIds intel @ found_upi_ids text),
      phishingLinks = fromkeys (phishingLinks intel @ found_urls text),
      phoneNumbers = fromkeys (phoneNumbers intel @ found_phones text),
      suspiciousKeywords = fromkeys (suspiciousKeywords intel @ found_keywords text)\<rparr>"

text \<open>\<open>SessionManager.update_intelligence\<close>\<close>

definition update_intelligence :: "pystr \<Rightarrow> pystr \<Rightarrow> world \<Rightarrow> world" where
  "update_intelligence session_id text w =
     modify session_id (\<lambda>s. s\<lparr>intelligence := extract_into text (intelligence s)\<rparr>) w"

section \<open>The engagement agent\<close>

text \<open>
  \<open>random.choice\<close> draws from the process's random generator; the draw is the parameter
  \<open>rnd\<close>. Every pool of the program is a non-empty literal list.
\<close>

definition choice :: "nat \<Rightarrow> 'a list \<Rightarrow> 'a" where
  "choice rnd xs = xs ! (rnd mod length xs)"

definition persona_key :: "string option \<Rightarrow> nat \<Rightarrow> string" where
  "persona_key stype count =
     (if stype = Some ''bank_fraud'' \<or> stype = Some ''upi_fraud''
      then (if count < 3 then ''concerned_elderly'' else ''cautious_user'')
      else if stype = Some ''fake_offers'' then ''trusting_user''
      else ''busy_professional'')"

text \<open>\<open>_build_context\<close>: the last three messages of the history and the current one.\<close>

definition build_context :: "Message list \<Rightarrow> pystr \<Rightarrow> pystr" where
  "build_context history current =
     concat (map (\<lambda>msg. msg_sender msg @ str '': '' @ msg_text msg @ [10])
                 (drop (length history - 3) history))
     @ str ''scammer: '' @ current @ [10]"

definition initial_responses :: "(string \<times> string list) list" where
  "initial_responses =
    [(''bank_fraud'',
       [''Oh no! Why will my account be blocked? I haven't done anything wrong.'',
        ''What? Is this a message from my bank? I'm worried now.'',
        ''I don't understand. Can you explain what's happening with my account?'']),
     (''upi_fraud'',
       [''My UPI is blocked? But I just used it yesterday. What happened?'',
        ''Is this from my bank? I need to use UPI for payments.'',
        ''Why would my UPI be suspended? Please tell me what to do.'']),
     (''phishing'',
       [''I got your message. Is this urgent? Should I click the link now?'',
        ''What kind of verification is this? I want to make sure it's safe.'',
        ''Ok, but can you tell me more about what I need to do?'']),
     (''fake_offers'',
       [''Really? I won something? What prize is this?'',
        ''This sounds great! How do I claim it?'',
        ''Wow, I didn't know I entered any lottery. What do I need to do?'']),
     (''impersonation'',
       [''Legal notice? What have I done wrong? I'm scared.'',
        ''Is this really from the government? What should I do?'',
        ''I don't want any legal trouble. Please help me understand.'']),
     (''otp_fraud'',
       [''OTP? I just received one. Is this related to my account?'',
        ''Should I share the code? I'm not sure what this is for.'',
        ''I got a code but I didn't request anything. What's going on?''])]"

text \<open>\<open>responses.get(scam_type, responses['bank_fraud'])\<close>\<close>

definition initial_pool :: "string option \<Rightarrow> string list" where
  "initial_pool stype =
     (case (case stype of None \<Rightarrow> None | Some t \<Rightarrow> map_of initial_responses t) of
        Some response_list \<Rightarrow> response_list
      | None \<Rightarrow> the (map_of initial_responses ''bank_fraud''))"

definition generate_initial_response :: "nat \<Rightarrow> pystr \<Rightarrow> string option \<Rightarrow> string" where
  "generate_initial_response rnd message stype = choice rnd (initial_pool stype)"

definition probing_pool :: "pystr \<Rightarrow> string list" where
  "probing_pool message =
     (let message_lower = lower message in
      if contains (str ''account'') message_lower \<or> contains (str ''number'') message_lower then
        [''Which account number do you need? I have multiple accounts.'',
         ''Should I share my savings account or current account number?'',
         ''I have accounts in different banks. Which one are you asking about?'']
      else if contains (str ''upi'') message_lower then
        [''What UPI ID exactly? I have different ones for different apps.'',
         ''I use multiple UPI apps. Which one should I share - PhonePe, GPay, or Paytm?'',
         ''My UPI ID is linked to many apps. Can you specify which one?'']
      else if contains (str ''click'') message_lower \<or> contains (str ''link'') message_lower then
        [''I'm trying to click but the link doesn't work. Can you send it again?'',
         ''The link is not opening on my phone. Is there another way?'',
         ''I clicked the link but nothing happened. What should I do?'']
      else if contains (str ''otp'') message_lower \<or> contains (str ''code'') message_lower then
        [''I received a code but it's not clear. Should I share all the digits?'',
         ''The OTP is 6 digits, right? Should I tell you the whole thing?'',
         ''I got the code. Do you need me to read it out to you?'']
      else if contains (str ''payment'') message_lower \<or> contains (str ''money'') message_lower
              \<or> contains (str ''send'') message_lower \<or> contains (str ''transfer'') message_lower then
        [''How much should I send? And to which account or UPI?'',
         ''What amount exactly? And will I get it back?'',
         ''Should I use UPI or bank transfer? What's the account details?'']
      else if contains (str ''install'') message_lower \<or> contains (str ''download'') message_lower then
        [''What app should I download? Can you give me the exact name?'',
         ''Is this app available on Play Store? What's it called?'',
         ''Should I download it from the link you sent or from the app store?'']
      else if contains (str ''call'') message_lower \<or> contains (str ''contact'') message_lower
              \<or> contains (str ''phone'') message_lower then
        [''What number should I call? And what should I say?'',
         ''Should I call you right now? What's your number?'',
         ''I can call, but what extension or department should I ask for?'']
      else if contains (str ''card'') message_lower \<or> contains (str ''cvv'') message_lower
              \<or> contains (str ''debit'') message_lower \<or> contains (str ''credit'') message_lower then
        [''Which card - my debit card or credit card?'',
         ''You need the card number? All 16 digits?'',
         ''Should I also share the expiry date and CVV?'']
      else if contains (str ''kyc'') message_lower \<or> contains (str ''document'') message_lower
              \<or> contains (str ''aadhar'') message_lower \<or> contains (str ''pan'') message_lower then
        [''What documents do you need? I have Aadhar and PAN card.'',
         ''Should I upload the documents somewhere? Where?'',
         ''Do you need photos of my documents or just the numbers?'']
      else
        [''Can you please provide more details? I want to do this correctly.'',
         ''I'm not sure I understand. Can you explain step by step?'',
         ''What exactly do you need from me to resolve this?'',
         ''I want to help but need clearer instructions. What's the next step?''])"

definition generate_probing_response :: "nat \<Rightarrow> pystr \<Rightarrow> string option \<Rightarrow> pystr \<Rightarrow> string"
  where
  "generate_probing_response rnd message stype context = choice rnd (probing_pool message)"

definition hesitant_pool :: "string list" where
  "hesitant_pool =
    [''I'm a bit confused. Can you confirm you're from the official bank?'',
     ''My friend said to be careful with such messages. But this is real, right?'',
     ''Before I proceed, can you give me your employee ID or official number?'',
     ''I want to help but I need to verify this is legitimate. What's your department?'',
     ''Okay, but can I call my bank first to confirm this?'',
     ''This seems urgent but I want to be sure. What happens if I don't do this now?'']"

definition generate_hesitant_response :: "nat \<Rightarrow> pystr \<Rightarrow> string option \<Rightarrow> pystr \<Rightarrow> string"
  where
  "generate_hesitant_response rnd message stype context = choice rnd hesitant_pool"

definition final_pool :: "string list" where
  "final_pool =
    [''I'm going to check with my bank branch directly. Thank you for informing me.'',
     ''I think I should visit the bank in person for this. Thanks anyway.'',
     ''My son said this might be a scam. I'll verify with the bank first.'',
     ''I'm not comfortable sharing this information online. I'll go to the bank.'',
     ''Let me consult with someone before proceeding. I'll get back to you.'',
     ''I received a call from my bank saying this is fake. I'm reporting this.'']"

text \<open>\<open>_generate_final_response\<close> also ends the engagement of the session.\<close>

definition generate_final_response ::
  "nat \<Rightarrow> pystr \<Rightarrow> pystr \<Rightarrow> string option \<Rightarrow> pystr \<Rightarrow> world \<Rightarrow> string \<times> world" where
  "generate_final_response rnd session_id message stype context w =
     (choice rnd final_pool, modify session_id (\<lambda>s. s\<lparr>should_continue := False\<rparr>) w)"

text \<open>
  \<open>HoneypotAgent.generate_response\<close>. The persona and the context are computed and then used
  by none of the four generators.
\<close>

definition generate_response ::
  "nat \<Rightarrow> pystr \<Rightarrow> Message list \<Rightarrow> pystr \<Rightarrow> string option \<Rightarrow> world \<Rightarrow> string \<times> world" where
  "generate_response rnd session_id conversation_history current_message stype w0 =
     (let (session, w) = get_session session_id w0;
          count = engagement_count session;
          persona = persona_key stype count;
          context = build_context conversation_history current_message
      in if count = 0 then (generate_initial_response rnd current_message stype, w)
         else if count < 3 then (generate_probing_response rnd current_message stype context, w)
         else if count < 6 then (generate_hesitant_response rnd current_message stype context, w)
         else generate_final_response rnd session_id current_message stype context w)"

section \<open>The final report\<close>

text \<open>\<open>str(n)\<close> for a non-negative integer, as the f-string of \<open>agentNotes\<close> formats it.\<close>

function str_nat :: "nat \<Rightarrow> string" where
  "str_nat n =
     (if n < 10 then [''0123456789'' ! n] else str_nat (n div 10) @ [''0123456789'' ! (n mod 10)])"
  by pat_completeness auto
termination
  by (relation "measure (\<lambda>n. n)") auto

definition str_opt :: "string option \<Rightarrow> string" where
  "str_opt v = (case v of None \<Rightarrow> ''None'' | Some t \<Rightarrow> t)"

definition session_of :: "pystr \<Rightarrow> world \<Rightarrow> session" where
  "session_of session_id w = fst (get_session session_id w)"

definition final_payload :: "pystr \<Rightarrow> session \<Rightarrow> FinalResultPayload" where
  "final_payload session_id s =
     (let intel = intelligence s in
      \<lparr>p_sessionId = session_id,
       p_scamDetected = scam_detected s,
       p_totalMessagesExchanged = length (messages s),
       p_extractedIntelligence =
         [(''bankAccounts'', bankAccounts intel),
          (''upiIds'', upiIds intel),
          (''phishingLinks'', phishingLinks intel),
          (''phoneNumbers'', phoneNumbers intel),
          (''suspiciousKeywords'', suspiciousKeywords intel)],
       p_agentNotes =
         ''Scam type: '' @ str_opt (scam_type s) @ ''. Agent engaged scammer through ''
         @ str_nat (engagement_count s)
         @ '' turns using adaptive conversation strategies. Successfully extracted ''
         @ str_nat (length (bankAccounts intel)) @ '' bank accounts, ''
         @ str_nat (length (upiIds intel)) @ '' UPI IDs, ''
         @ str_nat (length (phishingLinks intel)) @ '' phishing links, and ''
         @ str_nat (length (phoneNumbers intel)) @ '' phone numbers.''\<rparr>)"

text \<open>
  What one \<open>requests.post\<close> does: it returns a response with a status code, raises
  \<open>Timeout\<close>, raises another \<open>RequestException\<close>, or raises something else, which only the
  outer \<open>except Exception\<close> of \<open>send_final_result\<close> catches.
\<close>

datatype http_result = Status int | Timeout | RequestException | OtherException

text \<open>
  The retry loop \<open>for attempt in range(max_retries)\<close>, from attempt \<open>attempt\<close> with
  \<open>remaining\<close> attempts left: its events, and whether the report was acknowledged.
\<close>

fun post_loop ::
  "(nat \<Rightarrow> http_result) \<Rightarrow> pystr \<Rightarrow> FinalResultPayload \<Rightarrow> nat \<Rightarrow> nat \<Rightarrow> event list \<times> bool"
  where
  "post_loop net session_id payload attempt 0 = ([LogFailed session_id], False)"
| "post_loop net session_id payload attempt (Suc remaining) =
     (let retry =
            (let (evs, ok) = post_loop net session_id payload (attempt + 1) remaining
             in (HttpPost payload # (if remaining > 0 then [Sleep (2 ^ attempt)] else []) @ evs,
                 ok))
      in case net attempt of
           Status code \<Rightarrow>
             if code = 200 \<or> code = 201
             then ([HttpPost payload, LogSent session_id code], True)
             else retry
         | Timeout \<Rightarrow> retry
         | RequestException \<Rightarrow> retry
         | OtherException \<Rightarrow> ([HttpPost payload, LogCritical session_id], False))"

definition max_retries :: nat where
  "max_retries = 3"

definition send_final_result :: "(nat \<Rightarrow> http_result) \<Rightarrow> pystr \<Rightarrow> world \<Rightarrow> world" where
  "send_final_result net session_id w0 =
     (let (s, w) = get_session session_id w0 in
      if final_result_sent s then w\<lparr>trace := trace w @ [LogAlreadySent session_id]\<rparr>
      else
        let payload = final_payload session_id s;
            (evs, ok) = post_loop net session_id payload 0 max_retries;
            w' = w\<lparr>trace := trace w @ evs\<rparr>
        in if ok then modify session_id (\<lambda>s. s\<lparr>final_result_sent := True\<rparr>) w' else w')"

section \<open>The endpoints\<close>

datatype http_exception = HTTPException nat string

record session_status =
  st_sessionId :: pystr
  st_scamDetected :: bool
  st_scamType :: "string option"
  st_engagementCount :: nat
  st_totalMessages :: nat
  st_shouldContinue :: bool
  st_extractedIntelligence :: "(string \<times> nat) list"

text \<open>\<open>GET /session/{session_id}\<close>: the answer or the exception, and the store afterwards.\<close>

definition get_session_status :: "pystr \<Rightarrow> world \<Rightarrow> (http_exception + session_status) \<times> world"
  where
  "get_session_status session_id w =
     (case sessions w session_id of
        None \<Rightarrow> (Inl (HTTPException 404 ''Session not found''), w)
      | Some s \<Rightarrow>
          (let intel = intelligence s in
           (Inr \<lparr>st_sessionId = session_id,
                 st_scamDetected = scam_detected s,
                 st_scamType = scam_type s,
                 st_engagementCount = engagement_count s,
                 st_totalMessages = length (messages s),
                 st_shouldContinue = should_continue s,
                 st_extractedIntelligence =
                   [(''bankAccounts'', length (bankAccounts intel)),
                    (''upiIds'', length (upiIds intel)),
                    (''phishingLinks'', length (phishingLinks intel)),
                    (''phoneNumbers'', length (phoneNumbers intel)),
                    (''suspiciousKeywords'', length (suspiciousKeywords intel))]\<rparr>, w)))"

record HoneypotRequest =
  req_sessionId :: pystr
  req_message :: Message
  req_conversationHistory :: "Message list"

record HoneypotResponse =
  resp_status :: string
  resp_reply :: string

text \<open>
  What a request takes from outside the program: the draw of \<open>random.choice\<close>, the clock
  reading in milliseconds, and the outcome of each attempt to post the report.
\<close>

record env =
  env_rnd :: nat
  env_now :: int
  env_net :: "nat \<Rightarrow> http_result"

definition neutral_reply :: string where
  "neutral_reply = ''Thank you for your message. Have a nice day!''"

text \<open>
  \<open>POST /detect\<close>. No step of the body raises on a well-typed request, so the handler
  \<open>except Exception\<close> that answers with status 500 has no branch here.
\<close>

definition detect_and_engage :: "env \<Rightarrow> HoneypotRequest \<Rightarrow> world \<Rightarrow> HoneypotResponse \<times> world"
  where
  "detect_and_engage e request w0 =
     (let session_id = req_sessionId request;
          current_message = req_message request;
          conversation_history = req_conversationHistory request;
          w1 = snd (get_session session_id w0);
          w2 = modify session_id (\<lambda>s. s\<lparr>messages := messages s @ [current_message]\<rparr>) w1;
          w3 = update_intelligence session_id (msg_text current_message) w2;
          (is_scam, stype) = detect (msg_text current_message);
          w4 = (if is_scam \<and> \<not> scam_detected (session_of session_id w3)
                then modify session_id (\<lambda>s. s\<lparr>scam_detected := True, scam_type := stype\<rparr>) w3
                else w3)
      in if scam_detected (session_of session_id w4) \<and> should_continue (session_of session_id w4)
         then
           let (agent_response, w5) =
                 generate_response (env_rnd e) session_id conversation_history
                   (msg_text current_message) (scam_type (session_of session_id w4)) w4;
               w6 = modify session_id (\<lambda>s. s\<lparr>engagement_count := engagement_count s + 1\<rparr>) w5;
               agent_message =
                 \<lparr>msg_sender = str ''user'', msg_text = str agent_response,
                  msg_timestamp = env_now e\<rparr>;
               w7 = modify session_id (\<lambda>s. s\<lparr>messages := messages s @ [agent_message]\<rparr>) w6;
               w8 = (if engagement_count (session_of session_id w7) \<ge> 7
                        \<or> \<not> should_continue (session_of session_id w7)
                     then send_final_result (env_net e) session_id
                            (w7\<lparr>trace := trace w7 @ [LogTrigger session_id]\<rparr>)
                     else w7)
           in (\<lparr>resp_status = ''success'', resp_reply = agent_response\<rparr>, w8)
         else (\<lparr>resp_status = ''success'', resp_reply = neutral_reply\<rparr>, w4))"

text \<open>A sequence of requests handled one after the other: the replies and the final state.\<close>

fun handle_all :: "(env \<times> HoneypotRequest) list \<Rightarrow> world \<Rightarrow> HoneypotResponse list \<times> world" where
  "handle_all [] w = ([], w)"
| "handle_all ((e, request) # rest) w =
     (let (response, w') = detect_and_engage e request w;
          (responses, w'') = handle_all rest w'
      in (response # responses, w''))"

definition initial_world :: world where
  "initial_world = \<lparr>sessions = Map.empty, trace = []\<rparr>"

section \<open>Scenarios\<close>

text \<open>Concrete surroundings and requests on which the properties below are exercised.\<close>

definition always :: "http_result \<Rightarrow> nat \<Rightarrow> http_result" where
  "always r attempt = r"

definition third_time :: "nat \<Rightarrow> http_result" where
  "third_time attempt = (if attempt = 2 then Status 201 else Timeout)"

definition at_count :: "nat \<Rightarrow> world" where
  "at_count n = modify (str ''s'') (\<lambda>s. s\<lparr>engagement_count := n\<rparr>) initial_world"

text \<open>The events that count: a call of the reporting step, and a request posted to the endpoint.\<close>

fun is_trigger :: "event \<Rightarrow> bool" where
  "is_trigger (LogTrigger session_id) = True"
| "is_trigger _ = False"

fun is_post :: "event \<Rightarrow> bool" where
  "is_post (HttpPost payload) = True"
| "is_post _ = False"

definition otp_request :: HoneypotRequest where
  "otp_request =
     \<lparr>req_sessionId = str ''s'',
      req_message =
        \<lparr>msg_sender = str ''scammer'', msg_text = str ''share your otp now'',
         msg_timestamp = 0\<rparr>,
      req_conversationHistory = []\<rparr>"

definition lottery_request :: HoneypotRequest where
  "lottery_request =
     \<lparr>req_sessionId = str ''s'',
      req_message =
        \<lparr>msg_sender = str ''scammer'',
         msg_text = str ''Congratulations! You have won a lottery!'', msg_timestamp = 1\<rparr>,
      req_conversationHistory = []\<rparr>"

definition quiet_env :: env where
  "quiet_env = \<lparr>env_rnd = 0, env_now = 0, env_net = always (Status 200)\<rparr>"

definition otp_world :: world where
  "otp_world = update_intelligence (str ''s'') (str ''share your otp now'') initial_world"

section \<open>Notions used to state and prove the properties\<close>

text \<open>A group of four digits, and a separator that \<open>update_intelligence\<close> strips from a match.\<close>

definition digit_group :: "pystr \<Rightarrow> bool" where
  "digit_group g = (length g = 4 \<and> list_all is_digit g)"

definition card_separator :: "nat \<Rightarrow> bool" where
  "card_separator c = (c = ord CHR ''-'' \<or> c = ord CHR '' '')"

text \<open>
  The number of digits that a text ends with, and a text that ends with a run of exactly
  four, eight or twelve digits followed by exactly one character that the card pattern takes
  for a separator (a hyphen or white space): the latter is what a match that is under way
  needs in order to run on into what follows.
\<close>

definition trailing_digits :: "pystr \<Rightarrow> nat" where
  "trailing_digits a = length (takeWhile is_digit (rev a))"

definition digits_then_separator :: "pystr \<Rightarrow> bool" where
  "digits_then_separator pre =
     (pre \<noteq> [] \<and> sep_class (last pre)
      \<and> (trailing_digits (butlast pre) = 4 \<or> trailing_digits (butlast pre) = 8
         \<or> trailing_digits (butlast pre) = 12))"

text \<open>The card pattern behind its first boundary, from the group that has \<open>n\<close> groups after it.\<close>

fun groups_rx :: "nat \<Rightarrow> rx" where
  "groups_rx 0 = Seq (Rep is_digit 4 (Some 4)) (Seq Bnd (Lit []))"
| "groups_rx (Suc n) = Seq (Rep is_digit 4 (Some 4)) (Seq (Opt (Cls sep_class)) (groups_rx n))"

section \<open>The heuristic score in the words of the specification\<close>

text \<open>
  The fallback of the classifier, stated without regular expressions, to be compared with
  \<open>scam_score\<close> and \<open>detect\<close> above. \<open>somewhere P s\<close>: the property \<open>P\<close> holds of the text
  that starts at some position of \<open>s\<close>.
\<close>

fun somewhere :: "(pystr \<Rightarrow> bool) \<Rightarrow> pystr \<Rightarrow> bool" where
  "somewhere P [] = P []"
| "somewhere P (c # cs) = (P (c # cs) \<or> somewhere P cs)"

text \<open>The number of words of a vocabulary that occur in the text.\<close>

definition spec_count :: "string list \<Rightarrow> pystr \<Rightarrow> nat" where
  "spec_count words t = card {word \<in> set words. contains (str word) t}"

text \<open>A run of at least \<open>n\<close> digits.\<close>

definition spec_digit_run :: "nat \<Rightarrow> pystr \<Rightarrow> bool" where
  "spec_digit_run n s = somewhere (\<lambda>t. n \<le> length (takeWhile is_digit t)) s"

text \<open>
  \<open>@\<close> followed by one of the given handles, and a URL-like token: \<open>http://\<close>, \<open>https://\<close>,
  \<open>www.\<close>, or a word character directly followed by a dot and one of the given top-level
  domains.
\<close>

definition has_handle :: "string list \<Rightarrow> pystr \<Rightarrow> bool" where
  "has_handle handles t = list_ex (\<lambda>handle. contains (str (''@'' @ handle)) t) handles"

definition word_dot_tld :: "string list \<Rightarrow> pystr \<Rightarrow> bool" where
  "word_dot_tld tlds t =
     (case t of [] \<Rightarrow> False
      | c # cs \<Rightarrow> is_word c \<and> list_ex (\<lambda>tld. starts_with (str (''.'' @ tld)) cs) tlds)"

definition has_url_token :: "string list \<Rightarrow> pystr \<Rightarrow> bool" where
  "has_url_token tlds t =
     (contains (str ''http://'') t \<or> contains (str ''https://'') t \<or> contains (str ''www.'') t
      \<or> somewhere (word_dot_tld tlds) t)"

text \<open>The score, for given UPI handles and top-level domains.\<close>

definition score_with :: "string list \<Rightarrow> string list \<Rightarrow> pystr \<Rightarrow> real" where
  "score_with handles tlds text =
     (let t = lower text in
      real (spec_count urgency_words t) * 2 + real (spec_count threat_words t) * 3
      + real (spec_count action_words t) * 1.5 + real (spec_count request_words t) * 2
      + (if has_url_token tlds t then 3 else 0) + (if has_handle handles t then 2 else 0)
      + (if spec_digit_run 10 text then 1 else 0))"

text \<open>
  The score with the UPI handles and the top-level domains that the specification lists: the
  twelve handles of the extractor and the twelve domains of its links.
\<close>

definition listed_tlds :: "string list" where
  "listed_tlds = [''com'', ''in'', ''org'', ''net'', ''co.in'', ''xyz'', ''click'', ''top'',
     ''online'', ''site'', ''info'', ''biz'']"

definition listed_score :: "pystr \<Rightarrow> real" where
  "listed_score text = score_with upi_handles listed_tlds text"

text \<open>
  The score with the eight UPI handles and the seven top-level domains that the classifier
  looks for.
\<close>

definition classifier_handles :: "string list" where
  "classifier_handles =
     [''paytm'', ''phonepe'', ''gpay'', ''upi'', ''ybl'', ''oksbi'', ''okaxis'', ''okicici'']"

definition classifier_tlds :: "string list" where
  "classifier_tlds = [''com'', ''in'', ''org'', ''net'', ''xyz'', ''click'', ''top'']"

definition spec_score :: "pystr \<Rightarrow> real" where
  "spec_score text = score_with classifier_handles classifier_tlds text"

section \<open>Properties of the classifier\<close>

lemma ord_inject [simp]: "(ord a = ord b) = (a = b)"
  by (simp add: ord_def)

lemma str_inject [simp]: "(str a = str b) = (a = b)"
  by (simp add: str_def inj_map_eq_map inj_on_def)

lemma length_str [simp]: "length (str l) = length l"
  by (simp add: str_def)

lemma str_append: "str (a @ b) = str a @ str b"
  by (simp add: str_def)

lemma str_Nil [simp]: "str [] = []"
  by (simp add: str_def)

text \<open>
  C4. The classifier answers \<open>(True, bank_fraud)\<close> to "Your bank account will be blocked
  today. Verify immediately.", \<open>(True, fake_offers)\<close> to "Congratulations! You have won a
  lottery!" and \<open>(False, None)\<close> to "Hello, how are you today?".
\<close>

theorem detect_examples:
  "detect (str ''Your bank account will be blocked today. Verify immediately.'')
     = (True, Some ''bank_fraud'')
   \<and> detect (str ''Congratulations! You have won a lottery!'') = (True, Some ''fake_offers'')
   \<and> detect (str ''Hello, how are you today?'') = (False, None)"
  by code_simp

section \<open>Properties of the extractor\<close>

lemma set_fold_insert_key: "set (fold insert_key xs d) = set d \<union> set xs"
  by (induction xs arbitrary: d) (auto simp: insert_key_def)

lemma distinct_fold_insert_key: "distinct d \<Longrightarrow> distinct (fold insert_key xs d)"
  by (induction xs arbitrary: d) (auto simp: insert_key_def)

lemma fold_insert_key_known: "set xs \<subseteq> set d \<Longrightarrow> fold insert_key xs d = d"
  by (induction xs arbitrary: d) (auto simp: insert_key_def)

lemma fold_insert_key_fresh: "distinct (d @ xs) \<Longrightarrow> fold insert_key xs d = d @ xs"
  by (induction xs arbitrary: d) (auto simp: insert_key_def)

lemma distinct_fromkeys: "distinct (fromkeys xs)"
  by (simp add: fromkeys_def distinct_fold_insert_key)

lemma set_fromkeys: "set (fromkeys xs) = set xs"
  by (simp add: fromkeys_def set_fold_insert_key)

lemma fromkeys_distinct: "distinct xs \<Longrightarrow> fromkeys xs = xs"
  using fold_insert_key_fresh [of "[]" xs] by (simp add: fromkeys_def)

text \<open>Merging the same finds a second time adds nothing and moves nothing.\<close>

lemma fromkeys_again: "fromkeys (fromkeys (old @ new) @ new) = fromkeys (old @ new)"
proof -
  have "fromkeys (fromkeys (old @ new) @ new)
        = fold insert_key new (fold insert_key (fromkeys (old @ new)) [])"
    by (simp add: fromkeys_def)
  also have "fold insert_key (fromkeys (old @ new)) [] = fromkeys (old @ new)"
    using fromkeys_distinct [OF distinct_fromkeys, of "old @ new"] by (simp add: fromkeys_def)
  also have "fold insert_key new (fromkeys (old @ new)) = fromkeys (old @ new)"
    by (rule fold_insert_key_known) (simp add: set_fromkeys)
  finally show ?thesis .
qed

lemma extract_into_twice: "extract_into text (extract_into text intel) = extract_into text intel"
  by (simp add: extract_into_def fromkeys_again)

lemma modify_modify: "modify sid f (modify sid g w) = modify sid (\<lambda>s. f (g s)) w"
  by (simp add: modify_def get_session_def split: option.splits)

text \<open>
  C7. Extraction with merging is idempotent: for every state of the store, every session id
  and every text, running \<open>update_intelligence\<close> a second time with the same text leaves the
  store as the first run left it, so each of the five lists of the session has the same
  elements in the same first-seen order; the same holds of the merge into any five lists.
\<close>

theorem update_intelligence_idempotent:
  "update_intelligence session_id text (update_intelligence session_id text w)
     = update_intelligence session_id text w
   \<and> extract_into text (extract_into text intel) = extract_into text intel"
  by (simp add: update_intelligence_def modify_modify extract_into_twice)

section \<open>Reading and changing a session\<close>

lemma session_of_get_session [simp]: "session_of a (snd (get_session b w)) = session_of a w"
  by (simp add: session_of_def get_session_def split: option.splits)

lemma fst_get_session: "fst (get_session a w) = session_of a w"
  by (simp add: session_of_def)

lemma trace_get_session [simp]: "trace (snd (get_session b w)) = trace w"
  by (simp add: get_session_def split: option.splits)

lemma session_of_modify [simp]:
  "session_of a (modify b f w) = (if a = b then f (session_of b w) else session_of a w)"
  by (simp add: session_of_def modify_def get_session_def split: option.splits)

lemma trace_modify [simp]: "trace (modify b f w) = trace w"
  by (simp add: modify_def get_session_def split: option.splits)

lemma session_of_trace_update [simp]: "session_of a (w\<lparr>trace := t\<rparr>) = session_of a w"
  by (simp add: session_of_def get_session_def split: option.splits)

lemma session_of_known: "sessions w a = Some s \<Longrightarrow> session_of a w = s"
  by (simp add: session_of_def get_session_def)

lemma session_of_unknown: "sessions w a = None \<Longrightarrow> session_of a w = new_session"
  by (simp add: session_of_def get_session_def)

lemma get_session_known: "sessions w a = Some s \<Longrightarrow> get_session a w = (s, w)"
  by (simp add: get_session_def)

text \<open>The retry loop posts only the payload it was given, and reports success exactly when
  some attempt is answered with 200 or 201 before any unexpected error ends the loop.\<close>

lemma post_loop_posts:
  "HttpPost p \<in> set (fst (post_loop net sid payload a n)) \<Longrightarrow> p = payload"
proof (induction n arbitrary: a)
  case 0
  then show ?case by simp
next
  case (Suc n)
  obtain evs ok where r: "post_loop net sid payload (Suc a) n = (evs, ok)"
    by (cases "post_loop net sid payload (Suc a) n")
  have "HttpPost p \<in> set evs \<Longrightarrow> p = payload"
    using Suc.IH [of "Suc a"] r by simp
  with Suc.prems r show ?case
    by (auto simp: Let_def split: http_result.splits if_splits)
qed

lemma post_loop_delivered:
  "snd (post_loop net sid payload a n)
   = (\<exists>k<n. (net (a + k) = Status 200 \<or> net (a + k) = Status 201)
             \<and> (\<forall>j<k. net (a + j) \<noteq> OtherException))"
proof (induction n arbitrary: a)
  case 0
  then show ?case by simp
next
  case (Suc n)
  have shift: "(\<exists>k<n. (net (Suc a + k) = Status 200 \<or> net (Suc a + k) = Status 201)
                  \<and> (\<forall>j<k. net (Suc a + j) \<noteq> OtherException))
        \<longleftrightarrow> (\<exists>k<Suc n. 0 < k \<and> (net (a + k) = Status 200 \<or> net (a + k) = Status 201)
                  \<and> (\<forall>j<k. 0 < j \<longrightarrow> net (a + j) \<noteq> OtherException))" (is "?L \<longleftrightarrow> ?R")
  proof
    assume ?L
    then obtain k where k: "k < n" "net (Suc a + k) = Status 200 \<or> net (Suc a + k) = Status 201"
      "\<forall>j<k. net (Suc a + j) \<noteq> OtherException" by blast
    have "\<forall>j<Suc k. 0 < j \<longrightarrow> net (a + j) \<noteq> OtherException"
    proof (intro allI impI)
      fix j assume "j < Suc k" "0 < j"
      then obtain i where "j = Suc i" "i < k" by (cases j) auto
      with k(3) show "net (a + j) \<noteq> OtherException" by simp
    qed
    with k show ?R by (intro exI [of _ "Suc k"]) simp
  next
    assume ?R
    then obtain k where k: "k < Suc n" "0 < k"
      "net (a + k) = Status 200 \<or> net (a + k) = Status 201"
      "\<forall>j<k. 0 < j \<longrightarrow> net (a + j) \<noteq> OtherException" by blast
    then obtain i where i: "k = Suc i" by (cases k) auto
    have "\<forall>j<i. net (Suc a + j) \<noteq> OtherException"
      using k(4) i by auto
    with k i show ?L by (intro exI [of _ i]) simp
  qed
  show ?case
  proof (cases "net a")
    case (Status code)
    show ?thesis
    proof (cases "code = 200 \<or> code = 201")
      case True
      with Status show ?thesis by (auto intro!: exI [of _ 0])
    next
      case False
      have "snd (post_loop net sid payload a (Suc n)) = snd (post_loop net sid payload (Suc a) n)"
        using Status False by (simp add: Let_def split: prod.splits)
      also have "\<dots> = (\<exists>k<n. (net (Suc a + k) = Status 200 \<or> net (Suc a + k) = Status 201)
                  \<and> (\<forall>j<k. net (Suc a + j) \<noteq> OtherException))" by (rule Suc.IH)
      also have "\<dots> = (\<exists>k<Suc n. (net (a + k) = Status 200 \<or> net (a + k) = Status 201)
             \<and> (\<forall>j<k. net (a + j) \<noteq> OtherException))"
        unfolding shift using Status False
        by (metis add.right_neutral http_result.distinct(5) http_result.inject neq0_conv)
      finally show ?thesis .
    qed
  next
    case Timeout
    have "snd (post_loop net sid payload a (Suc n)) = snd (post_loop net sid payload (Suc a) n)"
      using Timeout by (simp add: Let_def split: prod.splits)
    also have "\<dots> = (\<exists>k<n. (net (Suc a + k) = Status 200 \<or> net (Suc a + k) = Status 201)
                  \<and> (\<forall>j<k. net (Suc a + j) \<noteq> OtherException))" by (rule Suc.IH)
    also have "\<dots> = (\<exists>k<Suc n. (net (a + k) = Status 200 \<or> net (a + k) = Status 201)
             \<and> (\<forall>j<k. net (a + j) \<noteq> OtherException))"
      unfolding shift using Timeout
      by (metis add.right_neutral http_result.distinct neq0_conv)
    finally show ?thesis .
  next
    case RequestException
    have "snd (post_loop net sid payload a (Suc n)) = snd (post_loop net sid payload (Suc a) n)"
      using RequestException by (simp add: Let_def split: prod.splits)
    also have "\<dots> = (\<exists>k<n. (net (Suc a + k) = Status 200 \<or> net (Suc a + k) = Status 201)
                  \<and> (\<forall>j<k. net (Suc a + j) \<noteq> OtherException))" by (rule Suc.IH)
    also have "\<dots> = (\<exists>k<Suc n. (net (a + k) = Status 200 \<or> net (a + k) = Status 201)
             \<and> (\<forall>j<k. net (a + j) \<noteq> OtherException))"
      unfolding shift using RequestException
      by (metis add.right_neutral http_result.distinct neq0_conv)
    finally show ?thesis .
  next
    case OtherException
    have "\<not> snd (post_loop net sid payload a (Suc n))"
      using OtherException by (simp add: Let_def split: prod.splits)
    moreover have "\<not> (\<exists>k<Suc n. (net (a + k) = Status 200 \<or> net (a + k) = Status 201)
             \<and> (\<forall>j<k. net (a + j) \<noteq> OtherException))"
      using OtherException
      by (metis add.right_neutral http_result.distinct neq0_conv)
    ultimately show ?thesis by simp
  qed
qed

section \<open>Properties of the endpoints and of the final report\<close>

text \<open>
  C9. Session introspection fails, with the not-found exception of status 404, exactly when
  the session id is not in the store; on a known id it answers with the five counts, the scam
  flag and category, the engagement count, the message count and the continuation flag of that
  session; in both cases the store is left as it was, so no session is created.
\<close>

theorem get_session_status_contract:
  "(isl (fst (get_session_status session_id w)) \<longleftrightarrow> sessions w session_id = None)
   \<and> (sessions w session_id = None \<longrightarrow>
        fst (get_session_status session_id w) = Inl (HTTPException 404 ''Session not found''))
   \<and> snd (get_session_status session_id w) = w
   \<and> (\<forall>s. sessions w session_id = Some s \<longrightarrow>
        fst (get_session_status session_id w) =
          Inr \<lparr>st_sessionId = session_id,
               st_scamDetected = scam_detected s,
               st_scamType = scam_type s,
               st_engagementCount = engagement_count s,
               st_totalMessages = length (messages s),
               st_shouldContinue = should_continue s,
               st_extractedIntelligence =
                 [(''bankAccounts'', length (bankAccounts (intelligence s))),
                  (''upiIds'', length (upiIds (intelligence s))),
                  (''phishingLinks'', length (phishingLinks (intelligence s))),
                  (''phoneNumbers'', length (phoneNumbers (intelligence s))),
                  (''suspiciousKeywords'', length (suspiciousKeywords (intelligence s)))]\<rparr>)"
  by (simp add: get_session_status_def Let_def split: option.splits)

theorem get_session_status_contract_witness:
  "sessions (snd (get_session (str ''a'') initial_world)) (str ''b'') = None
   \<and> sessions (snd (get_session (str ''a'') initial_world)) (str ''a'') = Some new_session
   \<and> fst (get_session_status (str ''b'') (snd (get_session (str ''a'') initial_world)))
       = Inl (HTTPException 404 ''Session not found'')
   \<and> fst (get_session_status (str ''a'') (snd (get_session (str ''a'') initial_world)))
       = Inr \<lparr>st_sessionId = (str ''a''), st_scamDetected = False, st_scamType = None,
              st_engagementCount = 0, st_totalMessages = 0, st_shouldContinue = True,
              st_extractedIntelligence =
                [(''bankAccounts'', 0), (''upiIds'', 0), (''phishingLinks'', 0),
                 (''phoneNumbers'', 0), (''suspiciousKeywords'', 0)]\<rparr>
   \<and> snd (get_session_status (str ''b'') (snd (get_session (str ''a'') initial_world)))
       = snd (get_session (str ''a'') initial_world)"
  using get_session_status_contract [of "str ''b''" "snd (get_session (str ''a'') initial_world)"]
        get_session_status_contract [of "str ''a''" "snd (get_session (str ''a'') initial_world)"]
  by (simp add: get_session_def initial_world_def new_session_def)

lemma send_final_result_sent:
  assumes "final_result_sent (session_of sid w)"
  shows "send_final_result net sid w = w\<lparr>trace := trace w @ [LogAlreadySent sid]\<rparr>"
proof (cases "sessions w sid")
  case None
  with assms show ?thesis by (simp add: session_of_unknown new_session_def)
next
  case (Some s)
  with assms show ?thesis
    by (simp add: send_final_result_def get_session_known session_of_known)
qed

lemma send_final_result_unsent:
  assumes "\<not> final_result_sent (session_of sid w)"
  shows "session_of a (send_final_result net sid w)
         = (if a = sid \<and> snd (post_loop net sid (final_payload sid (session_of sid w)) 0 max_retries)
            then (session_of sid w)\<lparr>final_result_sent := True\<rparr> else session_of a w)"
    and "trace (send_final_result net sid w)
         = trace w @ fst (post_loop net sid (final_payload sid (session_of sid w)) 0 max_retries)"
  using assms
  by (simp_all add: send_final_result_def Let_def case_prod_beta fst_get_session)

text \<open>
  C10. When \<open>final_result_sent\<close> is already set, \<open>send_final_result\<close> changes no session
  and posts nothing: it only logs that the report is skipped. When it is not set, the flag
  is set afterwards exactly when one of the three attempts is answered with status 200 or 201
  (and no earlier attempt raised an unexpected error); if none of the three attempts is
  answered with 200 or 201 it stays unset; and no other field of the session changes.
\<close>

theorem final_result_sent_flag:
  "(final_result_sent (session_of sid w) \<longrightarrow>
      send_final_result net sid w = w\<lparr>trace := trace w @ [LogAlreadySent sid]\<rparr>)
   \<and> (\<not> final_result_sent (session_of sid w) \<longrightarrow>
        final_result_sent (session_of sid (send_final_result net sid w))
          = (\<exists>k<3. (net k = Status 200 \<or> net k = Status 201) \<and> (\<forall>j<k. net j \<noteq> OtherException))
        \<and> ((\<forall>k<3. net k \<noteq> Status 200 \<and> net k \<noteq> Status 201) \<longrightarrow>
             \<not> final_result_sent (session_of sid (send_final_result net sid w)))
        \<and> session_of sid (send_final_result net sid w)
            = (session_of sid w)
                \<lparr>final_result_sent := final_result_sent (session_of sid (send_final_result net sid w))\<rparr>)"
proof (intro conjI impI)
  assume "final_result_sent (session_of sid w)"
  then show "send_final_result net sid w = w\<lparr>trace := trace w @ [LogAlreadySent sid]\<rparr>"
    by (rule send_final_result_sent)
next
  assume unsent: "\<not> final_result_sent (session_of sid w)"
  let ?ok = "snd (post_loop net sid (final_payload sid (session_of sid w)) 0 max_retries)"
  have ok: "?ok = (\<exists>k<3. (net k = Status 200 \<or> net k = Status 201) \<and> (\<forall>j<k. net j \<noteq> OtherException))"
    using post_loop_delivered [of net sid "final_payload sid (session_of sid w)" 0 max_retries]
    by (simp add: max_retries_def)
  have after: "session_of sid (send_final_result net sid w)
               = (if ?ok then (session_of sid w)\<lparr>final_result_sent := True\<rparr> else session_of sid w)"
    using send_final_result_unsent(1) [OF unsent, of sid net] by simp
  show flag: "final_result_sent (session_of sid (send_final_result net sid w))
          = (\<exists>k<3. (net k = Status 200 \<or> net k = Status 201) \<and> (\<forall>j<k. net j \<noteq> OtherException))"
    unfolding after ok [symmetric] using unsent by simp
  show "\<not> final_result_sent (session_of sid (send_final_result net sid w))"
    if "\<forall>k<3. net k \<noteq> Status 200 \<and> net k \<noteq> Status 201"
    unfolding flag using that by blast
  show "session_of sid (send_final_result net sid w)
            = (session_of sid w)
                \<lparr>final_result_sent := final_result_sent (session_of sid (send_final_result net sid w))\<rparr>"
    unfolding after using unsent by simp
qed

theorem final_result_sent_flag_witness:
  "\<not> final_result_sent (session_of (str ''s'') initial_world)
   \<and> \<not> final_result_sent (session_of (str ''s'') (send_final_result (always (Status 500)) (str ''s'') initial_world))
   \<and> final_result_sent (session_of (str ''s'') (send_final_result third_time (str ''s'') initial_world))
   \<and> send_final_result (always (Status 200)) (str ''s'') (send_final_result third_time (str ''s'') initial_world)
      = (send_final_result third_time (str ''s'') initial_world)
          \<lparr>trace := trace (send_final_result third_time (str ''s'') initial_world) @ [LogAlreadySent (str ''s'')]\<rparr>"
proof -
  have fresh: "\<not> final_result_sent (session_of (str ''s'') initial_world)"
    by (simp add: session_of_unknown initial_world_def new_session_def)
  have never: "\<forall>k<3. always (Status 500) k \<noteq> Status 200 \<and> always (Status 500) k \<noteq> Status 201"
    by (simp add: always_def)
  have third: "\<exists>k<3. (third_time k = Status 200 \<or> third_time k = Status 201)
                    \<and> (\<forall>j<k. third_time j \<noteq> OtherException)"
    by (intro exI [of _ 2]) (simp add: third_time_def)
  have a: "\<not> final_result_sent (session_of (str ''s'') (send_final_result (always (Status 500)) (str ''s'') initial_world))"
    using final_result_sent_flag [of "str ''s''" initial_world "always (Status 500)"] fresh never
    by blast
  have b: "final_result_sent (session_of (str ''s'') (send_final_result third_time (str ''s'') initial_world))"
    using final_result_sent_flag [of "str ''s''" initial_world third_time] fresh third
    by blast
  have c: "send_final_result (always (Status 200)) (str ''s'') (send_final_result third_time (str ''s'') initial_world)
      = (send_final_result third_time (str ''s'') initial_world)
          \<lparr>trace := trace (send_final_result third_time (str ''s'') initial_world) @ [LogAlreadySent (str ''s'')]\<rparr>"
    using final_result_sent_flag [of "str ''s''" "send_final_result third_time (str ''s'') initial_world"
                                     "always (Status 200)"] b
    by blast
  from fresh a b c show ?thesis by blast
qed

section \<open>Properties of the engagement agent\<close>

lemma choice_in_pool: "xs \<noteq> [] \<Longrightarrow> choice rnd xs \<in> set xs"
  by (simp add: choice_def)

lemma initial_pool_nonempty: "initial_pool stype \<noteq> []"
  by (simp add: initial_pool_def initial_responses_def split: option.splits)

lemma probing_pool_nonempty: "probing_pool message \<noteq> []"
  by (simp add: probing_pool_def Let_def)

lemma hesitant_pool_nonempty: "hesitant_pool \<noteq> []"
  by (simp add: hesitant_pool_def)

lemma final_pool_nonempty: "final_pool \<noteq> []"
  by (simp add: final_pool_def)

lemma modify_get_session: "modify a f (snd (get_session a w)) = modify a f w"
  by (simp add: modify_def get_session_def split: option.splits)

lemma fst_generate_response:
  "fst (generate_response rnd sid history message stype w)
   = (let n = engagement_count (session_of sid w) in
      if n = 0 then choice rnd (initial_pool stype)
      else if n < 3 then choice rnd (probing_pool message)
      else if n < 6 then choice rnd hesitant_pool
      else choice rnd final_pool)"
  by (simp add: generate_response_def Let_def case_prod_beta fst_get_session
        generate_initial_response_def generate_probing_response_def
        generate_hesitant_response_def generate_final_response_def)

lemma snd_generate_response:
  "snd (generate_response rnd sid history message stype w)
   = (if engagement_count (session_of sid w) < 6 then snd (get_session sid w)
      else modify sid (\<lambda>s. s\<lparr>should_continue := False\<rparr>) w)"
  by (simp add: generate_response_def Let_def case_prod_beta fst_get_session
        generate_final_response_def modify_get_session)

lemma session_of_generate_response [simp]:
  "session_of a (snd (generate_response rnd sid history message stype w))
   = (if a = sid \<and> 6 \<le> engagement_count (session_of sid w)
      then (session_of sid w)\<lparr>should_continue := False\<rparr> else session_of a w)"
  by (simp add: snd_generate_response)

lemma trace_generate_response [simp]:
  "trace (snd (generate_response rnd sid history message stype w)) = trace w"
  by (simp add: snd_generate_response)

text \<open>
  C3. For every store, session id, history, message, scam category and random draw, the reply
  of \<open>generate_response\<close> is drawn from the pool that the engagement count of the session
  selects: the initial pool at count 0, the probing pool at counts 1 and 2, the hesitant pool
  at counts 3 to 5 and the final pool from count 6 on. Whenever the final pool is selected
  the session's \<open>should_continue\<close> is \<open>False\<close> afterwards; below count 6 the session is
  left as it was.
\<close>

theorem generate_response_stages:
  "(engagement_count (session_of sid w) = 0 \<longrightarrow>
      fst (generate_response rnd sid history message stype w) = choice rnd (initial_pool stype)
      \<and> fst (generate_response rnd sid history message stype w) \<in> set (initial_pool stype))
   \<and> (engagement_count (session_of sid w) \<in> {1, 2} \<longrightarrow>
      fst (generate_response rnd sid history message stype w) = choice rnd (probing_pool message)
      \<and> fst (generate_response rnd sid history message stype w) \<in> set (probing_pool message))
   \<and> (engagement_count (session_of sid w) \<in> {3, 4, 5} \<longrightarrow>
      fst (generate_response rnd sid history message stype w) = choice rnd hesitant_pool
      \<and> fst (generate_response rnd sid history message stype w) \<in> set hesitant_pool)
   \<and> (6 \<le> engagement_count (session_of sid w) \<longrightarrow>
      fst (generate_response rnd sid history message stype w) = choice rnd final_pool
      \<and> fst (generate_response rnd sid history message stype w) \<in> set final_pool
      \<and> should_continue (session_of sid (snd (generate_response rnd sid history message stype w)))
          = False)
   \<and> (engagement_count (session_of sid w) < 6 \<longrightarrow>
      session_of sid (snd (generate_response rnd sid history message stype w)) = session_of sid w)"
  by (auto simp: fst_generate_response Let_def choice_in_pool initial_pool_nonempty
        probing_pool_nonempty hesitant_pool_nonempty final_pool_nonempty)

lemma count_at_count: "engagement_count (session_of (str ''s'') (at_count n)) = n"
  by (simp add: at_count_def)

theorem generate_response_stages_witness:
  "fst (generate_response 0 (str ''s'') [] (str ''hello'') (Some ''phishing'') (at_count 0))
     \<in> set (initial_pool (Some ''phishing''))
   \<and> fst (generate_response 1 (str ''s'') [] (str ''hello'') (Some ''phishing'') (at_count 1))
     \<in> set (probing_pool (str ''hello''))
   \<and> fst (generate_response 2 (str ''s'') [] (str ''hello'') (Some ''phishing'') (at_count 3))
     \<in> set hesitant_pool
   \<and> fst (generate_response 3 (str ''s'') [] (str ''hello'') (Some ''phishing'') (at_count 6))
     \<in> set final_pool
   \<and> should_continue (session_of (str ''s'')
        (snd (generate_response 3 (str ''s'') [] (str ''hello'') (Some ''phishing'') (at_count 6)))) = False"
  using generate_response_stages [of "str ''s''" "at_count 0" 0 "[]" "str ''hello''" "Some ''phishing''"]
        generate_response_stages [of "str ''s''" "at_count 1" 1 "[]" "str ''hello''" "Some ''phishing''"]
        generate_response_stages [of "str ''s''" "at_count 3" 2 "[]" "str ''hello''" "Some ''phishing''"]
        generate_response_stages [of "str ''s''" "at_count 6" 3 "[]" "str ''hello''" "Some ''phishing''"]
  unfolding count_at_count by auto

section \<open>Properties of the message handler\<close>

lemma session_of_send_final_result:
  "session_of a (send_final_result net sid w)
   = (if a = sid \<and> \<not> final_result_sent (session_of sid w)
         \<and> snd (post_loop net sid (final_payload sid (session_of sid w)) 0 max_retries)
      then (session_of sid w)\<lparr>final_result_sent := True\<rparr> else session_of a w)"
  by (cases "final_result_sent (session_of sid w)")
     (simp_all add: send_final_result_sent send_final_result_unsent)

lemma trace_send_final_result:
  "trace (send_final_result net sid w)
   = trace w @ (if final_result_sent (session_of sid w) then [LogAlreadySent sid]
                else fst (post_loop net sid (final_payload sid (session_of sid w)) 0 max_retries))"
  by (cases "final_result_sent (session_of sid w)")
     (simp_all add: send_final_result_sent send_final_result_unsent)

lemma session_of_update_intelligence [simp]:
  "session_of a (update_intelligence sid t w)
   = (if a = sid then (session_of sid w)\<lparr>intelligence := extract_into t (intelligence (session_of sid w))\<rparr>
      else session_of a w)"
  by (simp add: update_intelligence_def)

lemma trace_update_intelligence [simp]: "trace (update_intelligence sid t w) = trace w"
  by (simp add: update_intelligence_def)

lemma detect_and_engage_other:
  "a \<noteq> req_sessionId request \<Longrightarrow>
   session_of a (snd (detect_and_engage e request w)) = session_of a w"
  by (simp add: detect_and_engage_def Let_def case_prod_beta session_of_send_final_result)

lemma detect_and_engage_latch:
  "scam_detected (session_of a w) \<Longrightarrow>
   scam_detected (session_of a (snd (detect_and_engage e request w)))
   \<and> scam_type (session_of a (snd (detect_and_engage e request w))) = scam_type (session_of a w)"
proof (cases "a = req_sessionId request")
  case True
  assume "scam_detected (session_of a w)"
  with True show ?thesis
    by (simp add: detect_and_engage_def Let_def case_prod_beta session_of_send_final_result)
next
  case False
  assume "scam_detected (session_of a w)"
  with False show ?thesis by (simp add: detect_and_engage_other)
qed

lemma handle_all_step:
  "handle_all ((e, request) # rest) w
   = (fst (detect_and_engage e request w) # fst (handle_all rest (snd (detect_and_engage e request w))),
      snd (handle_all rest (snd (detect_and_engage e request w))))"
  by (simp add: case_prod_beta)

lemma detect_otp: "detect (str ''share your otp now'') = (True, Some ''otp_fraud'')"
  by code_simp

lemma detect_and_engage_first:
  assumes "\<not> scam_detected (session_of (req_sessionId request) w)"
      and "fst (detect (msg_text (req_message request)))"
  shows "scam_detected (session_of (req_sessionId request) (snd (detect_and_engage e request w)))"
    and "scam_type (session_of (req_sessionId request) (snd (detect_and_engage e request w)))
         = snd (detect (msg_text (req_message request)))"
  using assms
  by (simp_all add: detect_and_engage_def Let_def case_prod_beta session_of_send_final_result)

text \<open>
  C8. Once \<open>scam_detected\<close> is true for a session, no handling of later requests changes the
  session's \<open>scam_type\<close> (nor resets the flag): for every store in which the flag of a
  session is set and every sequence of requests, to this session or to others and with any
  texts, surroundings and histories, the category after the sequence is the category before.
\<close>

theorem scam_type_fixed:
  "scam_detected (session_of sid w) \<Longrightarrow>
   scam_detected (session_of sid (snd (handle_all rs w)))
   \<and> scam_type (session_of sid (snd (handle_all rs w))) = scam_type (session_of sid w)"
proof (induction rs arbitrary: w)
  case Nil
  then show ?case by simp
next
  case (Cons x rs)
  obtain e request where x: "x = (e, request)" by (cases x)
  let ?w = "snd (detect_and_engage e request w)"
  have step: "scam_detected (session_of sid ?w)
              \<and> scam_type (session_of sid ?w) = scam_type (session_of sid w)"
    using Cons.prems by (rule detect_and_engage_latch)
  then have "scam_detected (session_of sid (snd (handle_all rs ?w)))
             \<and> scam_type (session_of sid (snd (handle_all rs ?w))) = scam_type (session_of sid ?w)"
    using Cons.IH [of ?w] by simp
  with step show ?case unfolding x handle_all_step by simp
qed

theorem scam_type_fixed_witness:
  "scam_detected (session_of (str ''s'') (snd (detect_and_engage quiet_env otp_request initial_world)))
   \<and> scam_type (session_of (str ''s'')
        (snd (handle_all [(quiet_env, lottery_request)]
               (snd (detect_and_engage quiet_env otp_request initial_world)))))
     = Some ''otp_fraud''"
proof -
  have fresh: "\<not> scam_detected (session_of (req_sessionId otp_request) initial_world)"
    by (simp add: session_of_unknown initial_world_def new_session_def)
  have scam: "fst (detect (msg_text (req_message otp_request)))"
    by (simp add: otp_request_def detect_otp)
  have a: "scam_detected (session_of (str ''s'') (snd (detect_and_engage quiet_env otp_request initial_world)))"
    using detect_and_engage_first(1) [OF fresh scam, of quiet_env] by (simp add: otp_request_def)
  have b: "scam_type (session_of (str ''s'') (snd (detect_and_engage quiet_env otp_request initial_world)))
           = Some ''otp_fraud''"
    using detect_and_engage_first(2) [OF fresh scam, of quiet_env]
    by (simp add: otp_request_def detect_otp)
  from scam_type_fixed [OF a, of "[(quiet_env, lottery_request)]"] a b show ?thesis by simp
qed

lemma neutral_not_initial: "neutral_reply \<notin> set (initial_pool stype)"
  by (simp add: initial_pool_def initial_responses_def neutral_reply_def split: option.splits)

lemma neutral_not_probing: "neutral_reply \<notin> set (probing_pool message)"
  by (simp add: probing_pool_def Let_def neutral_reply_def)

lemma neutral_not_hesitant: "neutral_reply \<notin> set hesitant_pool"
  by (simp add: hesitant_pool_def neutral_reply_def)

lemma neutral_not_final: "neutral_reply \<notin> set final_pool"
  by (simp add: final_pool_def neutral_reply_def)

lemma generate_response_pools:
  "fst (generate_response rnd sid history message stype w)
   \<in> set (initial_pool stype @ probing_pool message @ hesitant_pool @ final_pool)"
  using choice_in_pool [OF initial_pool_nonempty, of rnd stype]
        choice_in_pool [OF probing_pool_nonempty, of rnd message]
        choice_in_pool [OF hesitant_pool_nonempty, of rnd]
        choice_in_pool [OF final_pool_nonempty, of rnd]
  by (simp add: fst_generate_response Let_def)

lemma pools_not_neutral:
  "x \<in> set (initial_pool stype @ probing_pool message @ hesitant_pool @ final_pool)
   \<Longrightarrow> x \<noteq> neutral_reply"
  using neutral_not_initial neutral_not_probing neutral_not_hesitant neutral_not_final
  by auto

lemma post_loop_no_trigger: "filter is_trigger (fst (post_loop net sid payload a n)) = []"
proof (induction n arbitrary: a)
  case 0
  then show ?case by simp
next
  case (Suc n)
  then show ?case
    by (cases "net a") (simp_all add: Let_def case_prod_beta)
qed

lemma post_loop_post_count:
  "length (filter is_post (fst (post_loop net sid payload a n))) \<le> n
   \<and> (0 < n \<longrightarrow> 1 \<le> length (filter is_post (fst (post_loop net sid payload a n))))"
proof (induction n arbitrary: a)
  case 0
  then show ?case by simp
next
  case (Suc n)
  have "length (filter is_post (fst (post_loop net sid payload (a + 1) n))) \<le> n"
    using Suc.IH [of "a + 1"] by simp
  then show ?case
    by (cases "net a") (simp_all add: Let_def case_prod_beta)
qed

text \<open>One request to a session that is engaged and whose engagement has not ended.\<close>

lemma detect_and_engage_engaged:
  assumes sid: "req_sessionId request = sid"
      and cont: "should_continue (session_of sid w)"
      and scam: "scam_detected (session_of sid w) \<or> fst (detect (msg_text (req_message request)))"
  shows "engagement_count (session_of sid (snd (detect_and_engage e request w)))
         = engagement_count (session_of sid w) + 1"
    and "scam_detected (session_of sid (snd (detect_and_engage e request w)))"
    and "should_continue (session_of sid (snd (detect_and_engage e request w)))
         = (engagement_count (session_of sid w) < 6)"
    and "length (messages (session_of sid (snd (detect_and_engage e request w))))
         = length (messages (session_of sid w)) + 2"
    and "engagement_count (session_of sid w) < 6 \<Longrightarrow>
         trace (snd (detect_and_engage e request w)) = trace w
         \<and> final_result_sent (session_of sid (snd (detect_and_engage e request w)))
           = final_result_sent (session_of sid w)"
    and "6 \<le> engagement_count (session_of sid w) \<Longrightarrow>
         \<not> final_result_sent (session_of sid w) \<Longrightarrow>
         \<exists>payload. trace (snd (detect_and_engage e request w))
           = trace w @ LogTrigger sid # fst (post_loop (env_net e) sid payload 0 max_retries)"
  using assms
  by (auto simp: detect_and_engage_def Let_def case_prod_beta session_of_send_final_result
        trace_send_final_result)

lemma detect_and_engage_reply:
  assumes sid: "req_sessionId request = sid"
      and cont: "should_continue (session_of sid w)"
      and scam: "scam_detected (session_of sid w) \<or> fst (detect (msg_text (req_message request)))"
  shows "\<exists>stype. resp_reply (fst (detect_and_engage e request w))
           \<in> set (initial_pool stype @ probing_pool (msg_text (req_message request))
                  @ hesitant_pool @ final_pool)"
proof -
  have "\<exists>stype w'. resp_reply (fst (detect_and_engage e request w))
          = fst (generate_response (env_rnd e) sid (req_conversationHistory request)
                   (msg_text (req_message request)) stype w')"
    using assms by (auto simp: detect_and_engage_def Let_def case_prod_beta)
  then show ?thesis using generate_response_pools by metis
qed

lemma detect_and_engage_ended:
  assumes sid: "req_sessionId request = sid"
      and ended: "\<not> should_continue (session_of sid w)"
  shows "resp_reply (fst (detect_and_engage e request w)) = neutral_reply"
    and "trace (snd (detect_and_engage e request w)) = trace w"
    and "\<not> should_continue (session_of sid (snd (detect_and_engage e request w)))"
    and "engagement_count (session_of sid (snd (detect_and_engage e request w)))
         = engagement_count (session_of sid w)"
  using assms
  by (simp_all add: detect_and_engage_def Let_def case_prod_beta)

lemma handle_all_append:
  "handle_all (xs @ ys) w
   = (fst (handle_all xs w) @ fst (handle_all ys (snd (handle_all xs w))),
      snd (handle_all ys (snd (handle_all xs w))))"
proof (induction xs arbitrary: w)
  case Nil
  then show ?case by simp
next
  case (Cons x xs)
  obtain e request where x: "x = (e, request)" by (cases x)
  show ?case using Cons.IH unfolding x by (simp add: case_prod_beta)
qed

lemma length_handle_all: "length (fst (handle_all rs w)) = length rs"
proof (induction rs arbitrary: w)
  case Nil
  then show ?case by simp
next
  case (Cons x rs)
  obtain e request where x: "x = (e, request)" by (cases x)
  show ?case using Cons.IH unfolding x by (simp add: case_prod_beta)
qed

text \<open>Requests to a session whose engagement has ended get the neutral reply and do nothing
  to the trace.\<close>

lemma handle_all_ended:
  assumes "\<not> should_continue (session_of sid w)"
      and "\<forall>(e, r) \<in> set rs. req_sessionId r = sid"
  shows "trace (snd (handle_all rs w)) = trace w
         \<and> (\<forall>x \<in> set (fst (handle_all rs w)). resp_reply x = neutral_reply)
         \<and> engagement_count (session_of sid (snd (handle_all rs w)))
             = engagement_count (session_of sid w)"
  using assms
proof (induction rs arbitrary: w)
  case Nil
  then show ?case by simp
next
  case (Cons x rs)
  obtain e request where x: "x = (e, request)" by (cases x)
  let ?w = "snd (detect_and_engage e request w)"
  have sid: "req_sessionId request = sid" using Cons.prems(2) x by simp
  note step = detect_and_engage_ended [OF sid Cons.prems(1), of e]
  have rest: "\<forall>(e, r) \<in> set rs. req_sessionId r = sid" using Cons.prems(2) by simp
  have "trace (snd (handle_all rs ?w)) = trace ?w
        \<and> (\<forall>x \<in> set (fst (handle_all rs ?w)). resp_reply x = neutral_reply)
        \<and> engagement_count (session_of sid (snd (handle_all rs ?w)))
            = engagement_count (session_of sid ?w)"
    using Cons.IH [OF step(3) rest] .
  with step show ?case unfolding x handle_all_step by simp
qed

text \<open>As long as the count stays within six, scam messages are answered by the agent and
  nothing is reported.\<close>

lemma handle_all_engaging:
  assumes "should_continue (session_of sid w)"
      and "\<forall>(e, r) \<in> set rs. req_sessionId r = sid \<and> fst (detect (msg_text (req_message r)))"
      and "engagement_count (session_of sid w) + length rs \<le> 6"
  shows "trace (snd (handle_all rs w)) = trace w
         \<and> should_continue (session_of sid (snd (handle_all rs w)))
         \<and> engagement_count (session_of sid (snd (handle_all rs w)))
             = engagement_count (session_of sid w) + length rs
         \<and> final_result_sent (session_of sid (snd (handle_all rs w)))
             = final_result_sent (session_of sid w)
         \<and> (\<forall>x \<in> set (fst (handle_all rs w)).
               \<exists>stype message. resp_reply x
                 \<in> set (initial_pool stype @ probing_pool message @ hesitant_pool @ final_pool))"
  using assms
proof (induction rs arbitrary: w)
  case Nil
  then show ?case by simp
next
  case (Cons x rs)
  obtain e request where x: "x = (e, request)" by (cases x)
  let ?w = "snd (detect_and_engage e request w)"
  have sid: "req_sessionId request = sid" using Cons.prems(2) x by simp
  have scam: "scam_detected (session_of sid w) \<or> fst (detect (msg_text (req_message request)))"
    using Cons.prems(2) x by simp
  have small: "engagement_count (session_of sid w) < 6" using Cons.prems(3) by simp
  note step = detect_and_engage_engaged [OF sid Cons.prems(1) scam, of e]
  note reply = detect_and_engage_reply [OF sid Cons.prems(1) scam, of e]
  have cont: "should_continue (session_of sid ?w)" using step(3) small by simp
  have rest: "\<forall>(e, r) \<in> set rs. req_sessionId r = sid \<and> fst (detect (msg_text (req_message r)))"
    using Cons.prems(2) by simp
  have bound: "engagement_count (session_of sid ?w) + length rs \<le> 6"
    using step(1) Cons.prems(3) by simp
  note IH = Cons.IH [OF cont rest bound]
  have quiet: "trace ?w = trace w
               \<and> final_result_sent (session_of sid ?w) = final_result_sent (session_of sid w)"
    using step(5) [OF small] .
  have replies: "\<forall>x \<in> set (fst (detect_and_engage e request w) # fst (handle_all rs ?w)).
               \<exists>stype message. resp_reply x
                 \<in> set (initial_pool stype @ probing_pool message @ hesitant_pool @ final_pool)"
    using reply IH by (metis set_ConsD)
  show ?case
    unfolding x handle_all_step using IH quiet step(1) replies by simp
qed

lemma sessions_initial_world: "sessions initial_world sid = None"
  by (simp add: initial_world_def)

text \<open>
  C2. A session that does not exist yet receives seven requests in a row, each with a text
  that the classifier flags. Then the handler answers seven times, each time with a reply of
  the agent and never with the neutral reply, and the engagement count ends at 7. The first
  six requests leave the trace untouched; the seventh, where the count reaches 7, calls the
  reporting step exactly once, which posts the report at least once and at most three times
  (the retries of that one call). Whatever requests follow on the same session (an eighth, a
  ninth, ...), each gets the neutral reply and the trace stays as it was: the reporting step
  is not called again and nothing more is posted.
\<close>

theorem seven_scam_messages:
  assumes fresh: "sessions w sid = None"
      and seven: "length rs = 7"
      and scams: "\<forall>(e, r) \<in> set rs. req_sessionId r = sid \<and> fst (detect (msg_text (req_message r)))"
      and later: "\<forall>(e, r) \<in> set later_rs. req_sessionId r = sid"
  shows "length (fst (handle_all rs w)) = 7
     \<and> (\<forall>x \<in> set (fst (handle_all rs w)).
           resp_reply x \<noteq> neutral_reply
           \<and> (\<exists>stype message. resp_reply x
                 \<in> set (initial_pool stype @ probing_pool message @ hesitant_pool @ final_pool)))
     \<and> engagement_count (session_of sid (snd (handle_all rs w))) = 7
     \<and> trace (snd (handle_all (butlast rs) w)) = trace w
     \<and> length (filter is_trigger (trace (snd (handle_all rs w))))
         = length (filter is_trigger (trace w)) + 1
     \<and> length (filter is_post (trace w)) + 1 \<le> length (filter is_post (trace (snd (handle_all rs w))))
     \<and> length (filter is_post (trace (snd (handle_all rs w)))) \<le> length (filter is_post (trace w)) + 3
     \<and> trace (snd (handle_all later_rs (snd (handle_all rs w)))) = trace (snd (handle_all rs w))
     \<and> (\<forall>x \<in> set (fst (handle_all later_rs (snd (handle_all rs w)))). resp_reply x = neutral_reply)
     \<and> engagement_count (session_of sid (snd (handle_all later_rs (snd (handle_all rs w))))) = 7"
proof -
  have new: "session_of sid w = new_session" using fresh by (rule session_of_unknown)
  have rs_ne: "rs \<noteq> []" using seven by auto
  obtain e7 q7 where r7: "last rs = (e7, q7)" by (cases "last rs")
  have split: "rs = butlast rs @ [(e7, q7)]" using rs_ne r7 by (metis append_butlast_last_id)
  let ?w6 = "snd (handle_all (butlast rs) w)"
  let ?w7 = "snd (detect_and_engage e7 q7 ?w6)"
  have first6: "\<forall>(e, r) \<in> set (butlast rs).
                  req_sessionId r = sid \<and> fst (detect (msg_text (req_message r)))"
    using scams by (meson in_set_butlastD)
  have seventh: "req_sessionId q7 = sid" "fst (detect (msg_text (req_message q7)))"
    using scams rs_ne r7 last_in_set [OF rs_ne] by auto
  have six: "trace ?w6 = trace w
             \<and> should_continue (session_of sid ?w6)
             \<and> engagement_count (session_of sid ?w6)
                 = engagement_count (session_of sid w) + length (butlast rs)
             \<and> final_result_sent (session_of sid ?w6) = final_result_sent (session_of sid w)
             \<and> (\<forall>x \<in> set (fst (handle_all (butlast rs) w)).
                   \<exists>stype message. resp_reply x
                     \<in> set (initial_pool stype @ probing_pool message @ hesitant_pool @ final_pool))"
    by (rule handle_all_engaging [OF _ first6]) (simp_all add: new new_session_def seven)
  have count6: "engagement_count (session_of sid ?w6) = 6"
    using six seven by (simp add: new new_session_def)
  have unsent6: "\<not> final_result_sent (session_of sid ?w6)"
    using six by (simp add: new new_session_def)
  have cont6: "should_continue (session_of sid ?w6)" using six by simp
  have scam7: "scam_detected (session_of sid ?w6) \<or> fst (detect (msg_text (req_message q7)))"
    using seventh(2) by simp
  note step = detect_and_engage_engaged [OF seventh(1) cont6 scam7, of e7]
  note reply7 = detect_and_engage_reply [OF seventh(1) cont6 scam7, of e7]
  have whole: "handle_all rs w
               = (fst (handle_all (butlast rs) w) @ [fst (detect_and_engage e7 q7 ?w6)], ?w7)"
    by (subst split, subst handle_all_append) (simp add: case_prod_beta)
  have count7: "engagement_count (session_of sid ?w7) = 7" using step(1) count6 by simp
  have ended7: "\<not> should_continue (session_of sid ?w7)" using step(3) count6 by simp
  obtain payload where tr7:
    "trace ?w7 = trace w @ LogTrigger sid # fst (post_loop (env_net e7) sid payload 0 max_retries)"
    using step(6) count6 unsent6 six by auto
  have posts: "length (filter is_post (fst (post_loop (env_net e7) sid payload 0 max_retries))) \<le> 3
               \<and> 1 \<le> length (filter is_post (fst (post_loop (env_net e7) sid payload 0 max_retries)))"
    using post_loop_post_count [of "env_net e7" sid payload 0 max_retries]
    by (simp add: max_retries_def)
  have replies: "\<forall>x \<in> set (fst (handle_all rs w)).
           \<exists>stype message. resp_reply x
                 \<in> set (initial_pool stype @ probing_pool message @ hesitant_pool @ final_pool)"
  proof
    fix x assume "x \<in> set (fst (handle_all rs w))"
    then have "x \<in> set (fst (handle_all (butlast rs) w)) \<or> x = fst (detect_and_engage e7 q7 ?w6)"
      unfolding whole by auto
    then show "\<exists>stype message. resp_reply x
                 \<in> set (initial_pool stype @ probing_pool message @ hesitant_pool @ final_pool)"
      using six reply7 by blast
  qed
  have not_neutral: "\<forall>x \<in> set (fst (handle_all rs w)). resp_reply x \<noteq> neutral_reply"
    using replies pools_not_neutral by blast
  have after: "trace (snd (handle_all later_rs ?w7)) = trace ?w7
         \<and> (\<forall>x \<in> set (fst (handle_all later_rs ?w7)). resp_reply x = neutral_reply)
         \<and> engagement_count (session_of sid (snd (handle_all later_rs ?w7)))
             = engagement_count (session_of sid ?w7)"
    by (rule handle_all_ended [OF ended7 later])
  have w7: "snd (handle_all rs w) = ?w7" unfolding whole by simp
  show ?thesis
    unfolding w7
    using length_handle_all [of rs w] seven replies not_neutral count7 six after posts
    by (simp add: tr7 post_loop_no_trigger)
qed

theorem seven_scam_messages_witness:
  "length (fst (handle_all (replicate 7 (quiet_env, otp_request)) initial_world)) = 7
   \<and> engagement_count (session_of (str ''s'')
        (snd (handle_all (replicate 7 (quiet_env, otp_request)) initial_world))) = 7
   \<and> length (filter is_trigger
        (trace (snd (handle_all (replicate 7 (quiet_env, otp_request)) initial_world)))) = 1
   \<and> trace (snd (handle_all (replicate 2 (quiet_env, lottery_request))
                (snd (handle_all (replicate 7 (quiet_env, otp_request)) initial_world))))
     = trace (snd (handle_all (replicate 7 (quiet_env, otp_request)) initial_world))"
proof -
  have scams: "\<forall>(e, r) \<in> set (replicate 7 (quiet_env, otp_request)).
                 req_sessionId r = (str ''s'') \<and> fst (detect (msg_text (req_message r)))"
    by (simp add: otp_request_def detect_otp)
  have later: "\<forall>(e, r) \<in> set (replicate 2 (quiet_env, lottery_request)). req_sessionId r = str ''s''"
    by (simp add: lottery_request_def)
  have seven: "length (replicate 7 (quiet_env, otp_request)) = 7" by simp
  from seven_scam_messages [OF sessions_initial_world seven scams later]
  show ?thesis by (simp add: initial_world_def)
qed

section \<open>What the final report carries\<close>

lemma final_payload_lists:
  "p_extractedIntelligence (final_payload sid s)
   = [(''bankAccounts'', bankAccounts (intelligence s)),
      (''upiIds'', upiIds (intelligence s)),
      (''phishingLinks'', phishingLinks (intelligence s)),
      (''phoneNumbers'', phoneNumbers (intelligence s)),
      (''suspiciousKeywords'', suspiciousKeywords (intelligence s))]"
  by (simp add: final_payload_def Let_def)

lemma extract_otp:
  "extract_into (str ''share your otp now'') (intelligence new_session)
   = \<lparr>bankAccounts = [], upiIds = [], phishingLinks = [], phoneNumbers = [],
      suspiciousKeywords = [str ''otp'']\<rparr>"
  by code_simp

lemma intelligence_otp_world:
  "intelligence (session_of (str ''s'') otp_world)
   = \<lparr>bankAccounts = [], upiIds = [], phishingLinks = [], phoneNumbers = [],
      suspiciousKeywords = [str ''otp'']\<rparr>"
  by (simp add: otp_world_def session_of_unknown initial_world_def extract_otp)

lemma trace_otp_report:
  "trace (send_final_result (always (Status 200)) (str ''s'') otp_world)
   = [HttpPost (final_payload (str ''s'') (session_of (str ''s'') otp_world)), LogSent (str ''s'') 200]"
  by (simp add: trace_send_final_result max_retries_def always_def numeral_3_eq_3)
     (simp add: otp_world_def initial_world_def session_of_unknown new_session_def)

text \<open>
  C1, as the specification states it, fails: the report posted for a session that received
  "share your otp now" carries five lists, the fifth being the suspicious keywords.
\<close>

theorem final_report_four_lists_counterexample:
  "trace (send_final_result (always (Status 200)) (str ''s'') otp_world)
     = [HttpPost (final_payload (str ''s'') (session_of (str ''s'') otp_world)), LogSent (str ''s'') 200]
   \<and> p_extractedIntelligence (final_payload (str ''s'') (session_of (str ''s'') otp_world))
     = [(''bankAccounts'', []), (''upiIds'', []), (''phishingLinks'', []), (''phoneNumbers'', []),
        (''suspiciousKeywords'', [str ''otp''])]
   \<and> length (p_extractedIntelligence (final_payload (str ''s'') (session_of (str ''s'') otp_world))) \<noteq> 4"
  by (simp add: trace_otp_report final_payload_lists intelligence_otp_world)

text \<open>
  C1, amended. Every request that \<open>send_final_result\<close> posts for a session carries in
  \<open>extractedIntelligence\<close> five lists, in this order: the bank accounts, the UPI ids, the
  phishing links, the phone numbers and the suspicious keywords of the session. The keyword
  list is part of the report.
\<close>

theorem final_report_five_lists:
  assumes "HttpPost p \<in> set (trace (send_final_result net sid w))"
      and "HttpPost p \<notin> set (trace w)"
  shows "p_extractedIntelligence p
         = [(''bankAccounts'', bankAccounts (intelligence (session_of sid w))),
            (''upiIds'', upiIds (intelligence (session_of sid w))),
            (''phishingLinks'', phishingLinks (intelligence (session_of sid w))),
            (''phoneNumbers'', phoneNumbers (intelligence (session_of sid w))),
            (''suspiciousKeywords'', suspiciousKeywords (intelligence (session_of sid w)))]"
proof (cases "final_result_sent (session_of sid w)")
  case True
  with assms show ?thesis by (simp add: send_final_result_sent)
next
  case False
  with assms have "HttpPost p \<in> set (fst (post_loop net sid (final_payload sid (session_of sid w)) 0 max_retries))"
    by (simp add: send_final_result_unsent(2))
  then have "p = final_payload sid (session_of sid w)" by (rule post_loop_posts)
  then show ?thesis by (simp add: final_payload_lists)
qed

theorem final_report_five_lists_witness:
  "p_extractedIntelligence (final_payload (str ''s'') (session_of (str ''s'') otp_world))
     = [(''bankAccounts'', []), (''upiIds'', []), (''phishingLinks'', []), (''phoneNumbers'', []),
        (''suspiciousKeywords'', [str ''otp''])]"
proof -
  have posted: "HttpPost (final_payload (str ''s'') (session_of (str ''s'') otp_world))
                \<in> set (trace (send_final_result (always (Status 200)) (str ''s'') otp_world))"
    by (simp add: trace_otp_report)
  have before: "HttpPost (final_payload (str ''s'') (session_of (str ''s'') otp_world)) \<notin> set (trace otp_world)"
    by (simp add: otp_world_def initial_world_def)
  from final_report_five_lists [OF posted before] show ?thesis
    by (simp add: intelligence_otp_world)
qed

section \<open>The grouped card numeral\<close>

lemma is_digit_word: "is_digit c \<Longrightarrow> is_word c"
  by (auto simp: is_digit_def is_word_def split: if_splits)

lemma sep_not_digit: "sep_class c \<Longrightarrow> \<not> is_digit c"
  by (auto simp: sep_class_def is_digit_def is_space_def ord_def split: if_splits)

lemma sep_not_word: "sep_class c \<Longrightarrow> \<not> is_word c"
  by (auto simp: sep_class_def is_word_def is_digit_def is_upper_def is_lower_def is_space_def
        latin1_word_def ord_def split: if_splits)

lemma card_separator_sep: "card_separator c \<Longrightarrow> sep_class c"
  by (auto simp: card_separator_def sep_class_def is_space_def ord_def)

lemma run_Lit_Nil [simp]: "run (Lit []) c = [c]"
  by (cases c) simp

lemma rep_run_zero [simp]: "rep_run p 0 (Some 0) c = [c]"
proof (cases c)
  case (Pair w s)
  then show ?thesis by (cases s) simp_all
qed

text \<open>An exact repetition over a block of the class takes the block and nothing else.\<close>

lemma rep_run_exact:
  "list_all p g \<Longrightarrow>
   rep_run p (length g) (Some (length g)) (w, g @ rest)
   = [(if g = [] then w else is_word (last g), rest)]"
proof (induction g arbitrary: w)
  case Nil
  then show ?case by simp
next
  case (Cons c g)
  then have "rep_run p (length g) (Some (length g)) (is_word c, g @ rest)
             = [(if g = [] then is_word c else is_word (last g), rest)]"
    by simp
  with Cons.prems show ?case by simp
qed

text \<open>Wherever it starts, an exact repetition ends after that many characters of the class.\<close>

lemma rep_run_exact_end:
  "(w', s') \<in> set (rep_run p n (Some n) (w, s)) \<Longrightarrow>
   n \<le> length s \<and> list_all p (take n s) \<and> s' = drop n s"
proof (induction s arbitrary: n w)
  case Nil
  then show ?case by (auto split: if_splits)
next
  case (Cons c s)
  show ?case
  proof (cases n)
    case 0
    with Cons.prems show ?thesis by simp
  next
    case (Suc m)
    with Cons.prems have c: "p c"
      and rest: "(w', s') \<in> set (rep_run p m (Some m) (is_word c, s))"
      by (auto split: if_splits)
    from Cons.IH [OF rest] c Suc show ?thesis by simp
  qed
qed

lemma run_digits4:
  assumes "digit_group g"
  shows "run (Rep is_digit 4 (Some 4)) (w, g @ rest) = [(True, rest)]"
proof -
  have len: "length g = 4" and all: "list_all is_digit g"
    using assms by (simp_all add: digit_group_def)
  have ne: "g \<noteq> []" using len by auto
  then have "is_digit (last g)" using all by (simp add: list_all_iff)
  then have "is_word (last g)" by (rule is_digit_word)
  with rep_run_exact [OF all, of w rest] len ne show ?thesis by simp
qed

lemma run_digits4_stuck:
  "\<not> is_digit c \<Longrightarrow> run (Seq (Rep is_digit 4 (Some 4)) r) (w, c # s) = []"
  by simp

text \<open>A digit group, its separator and the next group's first pattern item.\<close>

lemma run_group_sep:
  assumes "digit_group g" and "card_separator s"
  shows "run (Seq (Rep is_digit 4 (Some 4)) (Seq (Opt (Cls sep_class)) (Seq (Rep is_digit 4 (Some 4)) r)))
             (w, g @ s # rest)
         = run (Seq (Rep is_digit 4 (Some 4)) r) (False, rest)"
proof -
  have sep: "sep_class s" using assms(2) by (rule card_separator_sep)
  have nd: "\<not> is_digit s" using sep by (rule sep_not_digit)
  have nw: "\<not> is_word s" using sep by (rule sep_not_word)
  have stuck: "run (Seq (Rep is_digit 4 (Some 4)) r) (True, s # rest) = []"
    using nd by (rule run_digits4_stuck)
  have "run (Seq (Rep is_digit 4 (Some 4)) (Seq (Opt (Cls sep_class)) (Seq (Rep is_digit 4 (Some 4)) r)))
             (w, g @ s # rest)
        = run (Seq (Opt (Cls sep_class)) (Seq (Rep is_digit 4 (Some 4)) r)) (True, s # rest)"
    using run_digits4 [OF assms(1), of w "s # rest"] by simp
  also have "\<dots> = run (Seq (Rep is_digit 4 (Some 4)) r) (False, rest)
                   @ run (Seq (Rep is_digit 4 (Some 4)) r) (True, s # rest)"
    using sep nw by simp
  finally show ?thesis using stuck by simp
qed

lemma run_last_group:
  assumes "digit_group g" and "post = [] \<or> \<not> is_word (hd post)"
  shows "run (Seq (Rep is_digit 4 (Some 4)) (Seq Bnd (Lit []))) (w, g @ post) = [(True, post)]"
proof -
  have "run (Seq (Rep is_digit 4 (Some 4)) (Seq Bnd (Lit []))) (w, g @ post)
        = run (Seq Bnd (Lit [])) (True, post)"
    using run_digits4 [OF assms(1), of w post] by simp
  also have "\<dots> = [(True, post)]"
    using assms(2) by (cases post) auto
  finally show ?thesis .
qed

lemma card16_rx_unfold:
  "card16_rx =
     Seq Bnd (Seq (Rep is_digit 4 (Some 4)) (Seq (Opt (Cls sep_class))
       (Seq (Rep is_digit 4 (Some 4)) (Seq (Opt (Cls sep_class))
         (Seq (Rep is_digit 4 (Some 4)) (Seq (Opt (Cls sep_class))
           (Seq (Rep is_digit 4 (Some 4)) (Seq Bnd (Lit [])))))))))"
  by (simp add: card16_rx_def cat_def)

lemma card16_rx_groups: "card16_rx = Seq Bnd (groups_rx 3)"
  by (simp add: card16_rx_unfold eval_nat_numeral)

lemma run_card16_numeral:
  assumes "digit_group g1" "digit_group g2" "digit_group g3" "digit_group g4"
      and "card_separator s1" "card_separator s2" "card_separator s3"
      and "post = [] \<or> \<not> is_word (hd post)"
  shows "run card16_rx (False, g1 @ s1 # g2 @ s2 # g3 @ s3 # g4 @ post) = [(True, post)]"
proof -
  have "g1 \<noteq> []" using assms(1) by (auto simp: digit_group_def)
  then obtain c cs where g1: "g1 = c # cs" by (cases g1) auto
  have "is_digit c" using assms(1) g1 by (simp add: digit_group_def)
  then have "is_word c" by (rule is_digit_word)
  then have bnd: "run Bnd (False, g1 @ s1 # g2 @ s2 # g3 @ s3 # g4 @ post)
                  = [(False, g1 @ s1 # g2 @ s2 # g3 @ s3 # g4 @ post)]"
    by (simp add: g1)
  show ?thesis
    unfolding card16_rx_unfold
    by (subst run.simps(6), subst bnd)
       (simp only: map_append list.map concat.simps append_Nil2
          run_group_sep [OF assms(1) assms(5)] run_group_sep [OF assms(2) assms(6)]
          run_group_sep [OF assms(3) assms(7)] run_last_group [OF assms(4) assms(8)])
qed

lemma findall_from_match:
  "run r (w, s) = (w', s') # rest \<Longrightarrow> length s' < length s \<Longrightarrow>
   findall_from r (w, s) = take (length s - length s') s # findall_from r (w', s')"
  by (subst findall_from.simps) simp

text \<open>What a match consumes, and the boundary flag it leaves behind.\<close>

lemma starts_with_drop: "starts_with p s \<Longrightarrow> s = p @ drop (length p) s"
  by (induction p s rule: starts_with.induct) simp_all

lemma rep_run_consumes:
  "(w', s') \<in> set (rep_run p lo hi (w, s)) \<Longrightarrow>
   \<exists>x. s = x @ s' \<and> w' = (if x = [] then w else is_word (last x))"
proof (induction s arbitrary: lo hi w)
  case Nil
  then show ?case by (auto split: if_splits)
next
  case (Cons c cs)
  from Cons.prems consider
      (more) "(w', s') \<in> set (rep_run p (lo - 1) (map_option (\<lambda>h. h - 1) hi) (is_word c, cs))"
    | (stop) "(w', s') = (w, c # cs)"
    by (auto split: if_splits)
  then show ?case
  proof cases
    case more
    from Cons.IH [OF this] obtain x where
      x: "cs = x @ s'" "w' = (if x = [] then is_word c else is_word (last x))" by blast
    then have "c # cs = (c # x) @ s' \<and> w' = (if c # x = [] then w else is_word (last (c # x)))"
      by simp
    then show ?thesis by blast
  next
    case stop
    then have "c # cs = [] @ s' \<and> w' = (if [] = ([] :: pystr) then w else is_word (last []))"
      by simp
    then show ?thesis by blast
  qed
qed

lemma run_consumes:
  "(w', s') \<in> set (run r (w, s)) \<Longrightarrow>
   \<exists>x. s = x @ s' \<and> w' = (if x = [] then w else is_word (last x))"
proof (induction r arbitrary: w s w' s')
  case (Lit l)
  then have sw: "starts_with (str l) s" and s': "s' = drop (length l) s"
    and w': "w' = (if l = [] then w else is_word (ord (last l)))"
    by (auto split: if_splits)
  from starts_with_drop [OF sw] have "s = str l @ s'" using s' by simp
  moreover have "w' = (if str l = [] then w else is_word (last (str l)))"
    using w' by (cases "l = []") (simp_all add: str_def last_map)
  ultimately show ?case by blast
next
  case (Cls p)
  then obtain c where "s = c # s'" "w' = is_word c"
    by (auto split: list.splits if_splits)
  then have "s = [c] @ s' \<and> w' = (if [c] = [] then w else is_word (last [c]))" by simp
  then show ?case by blast
next
  case (Rep p lo hi)
  then show ?case using rep_run_consumes by simp
next
  case (Opt r)
  from Opt.prems consider "(w', s') \<in> set (run r (w, s))" | "(w', s') = (w, s)" by auto
  then show ?case
  proof cases
    case 1
    then show ?thesis by (rule Opt.IH)
  next
    case 2
    then have "s = [] @ s' \<and> w' = (if [] = ([] :: pystr) then w else is_word (last []))" by simp
    then show ?thesis by blast
  qed
next
  case Bnd
  then have "s = [] @ s' \<and> w' = (if [] = ([] :: pystr) then w else is_word (last []))"
    by (auto split: if_splits)
  then show ?case by blast
next
  case (Seq a b)
  from Seq.prems obtain w1 s1 where
    one: "(w1, s1) \<in> set (run a (w, s))" and two: "(w', s') \<in> set (run b (w1, s1))"
    by auto
  from Seq.IH(1) [OF one] obtain x where
    x: "s = x @ s1" "w1 = (if x = [] then w else is_word (last x))" by blast
  from Seq.IH(2) [OF two] obtain y where
    y: "s1 = y @ s'" "w' = (if y = [] then w1 else is_word (last y))" by blast
  from x y have "s = (x @ y) @ s' \<and> w' = (if x @ y = [] then w else is_word (last (x @ y)))"
    by simp
  then show ?case by blast
next
  case (Alt a b)
  from Alt.prems consider "(w', s') \<in> set (run a (w, s))" | "(w', s') \<in> set (run b (w, s))"
    by auto
  then show ?case
  proof cases
    case 1
    then show ?thesis by (rule Alt.IH(1))
  next
    case 2
    then show ?thesis by (rule Alt.IH(2))
  qed
qed

text \<open>The digits at the end of a text.\<close>

lemma trailing_digits_digits:
  "list_all is_digit p \<Longrightarrow> trailing_digits (q @ p) = length p + trailing_digits q"
proof -
  assume "list_all is_digit p"
  then have "\<And>x. x \<in> set (rev p) \<Longrightarrow> is_digit x" by (simp add: list_all_iff)
  then have "takeWhile is_digit (rev p @ rev q) = rev p @ takeWhile is_digit (rev q)"
    by (rule takeWhile_append2)
  then show ?thesis by (simp add: trailing_digits_def)
qed

lemma trailing_digits_other: "\<not> is_digit y \<Longrightarrow> trailing_digits (q @ [y]) = 0"
  by (simp add: trailing_digits_def)

lemma trailing_digits_boundary: "b = [] \<or> \<not> is_word (last b) \<Longrightarrow> trailing_digits b = 0"
proof (cases b rule: rev_cases)
  case Nil
  then show ?thesis by (simp add: trailing_digits_def)
next
  case (snoc q y)
  assume "b = [] \<or> \<not> is_word (last b)"
  then have "\<not> is_digit y" using snoc is_digit_word by auto
  then show ?thesis unfolding snoc by (rule trailing_digits_other)
qed

text \<open>
  A match of the card pattern that starts before a character which is not a digit ends
  before it, unless the character is a separator and the digits in front of it are whole
  groups of the match.
\<close>

lemma digits_before:
  assumes "\<not> is_digit c" and "4 \<le> length (a @ c # t)"
      and "list_all is_digit (take 4 (a @ c # t))"
  shows "4 \<le> length a"
proof (rule ccontr)
  assume "\<not> 4 \<le> length a"
  then obtain k where k: "4 - length a = Suc k" by (cases "4 - length a") simp_all
  have "take 4 (a @ c # t) = take 4 a @ take (4 - length a) (c # t)" by simp
  then have "take 4 (a @ c # t) = take 4 a @ c # take k t" by (simp only: k take_Suc_Cons)
  then have "c \<in> set (take 4 (a @ c # t))" by simp
  with assms(1,3) show False by (simp add: list_all_iff)
qed

lemma groups_rx_within:
  assumes "\<not> is_digit c"
      and "(w', s') \<in> set (run (groups_rx n) (w, a @ c # t))"
      and "trailing_digits b = 4 * i"
  shows "(\<exists>x a'. a = x @ a' \<and> s' = a' @ c # t)
         \<or> (sep_class c \<and> (\<exists>j. 1 \<le> j \<and> j \<le> i + n \<and> trailing_digits (b @ a) = 4 * j))"
  using assms(2,3)
proof (induction n arbitrary: a w b i)
  case 0
  from "0.prems"(1) obtain w1 s1 where
    one: "(w1, s1) \<in> set (rep_run is_digit 4 (Some 4) (w, a @ c # t))"
    and two: "(w', s') \<in> set (run (Seq Bnd (Lit [])) (w1, s1))"
    by auto
  from rep_run_exact_end [OF one] have
    len: "4 \<le> length (a @ c # t)" and dig: "list_all is_digit (take 4 (a @ c # t))"
    and s1: "s1 = drop 4 (a @ c # t)" by simp_all
  have la: "4 \<le> length a" using assms(1) len dig by (rule digits_before)
  have "s' = s1" using two by (auto split: if_splits)
  then have "a = take 4 a @ drop 4 a \<and> s' = drop 4 a @ c # t" using s1 la by simp
  then show ?case by blast
next
  case (Suc n)
  from Suc.prems(1) obtain w1 s1 where
    one: "(w1, s1) \<in> set (rep_run is_digit 4 (Some 4) (w, a @ c # t))"
    and two: "(w', s') \<in> set (run (Seq (Opt (Cls sep_class)) (groups_rx n)) (w1, s1))"
    by auto
  from rep_run_exact_end [OF one] have
    len: "4 \<le> length (a @ c # t)" and dig: "list_all is_digit (take 4 (a @ c # t))"
    and s1: "s1 = drop 4 (a @ c # t)" by simp_all
  have la: "4 \<le> length a" using assms(1) len dig by (rule digits_before)
  have s1': "s1 = drop 4 a @ c # t" using s1 la by simp
  have dig_a: "list_all is_digit (take 4 a)" using dig la by simp
  have group: "trailing_digits (b @ take 4 a) = 4 * Suc i"
    using trailing_digits_digits [OF dig_a, of b] la Suc.prems(2) by simp
  from two obtain w2 s2 where
    opt: "(w2, s2) \<in> set (run (Opt (Cls sep_class)) (w1, s1))"
    and three: "(w', s') \<in> set (run (groups_rx n) (w2, s2))"
    by auto
  from opt consider (skip) "(w2, s2) = (w1, s1)"
    | (take) y where "s1 = y # s2" "sep_class y"
    by (auto split: list.splits if_splits)
  then show ?case
  proof cases
    case skip
    then have "(w', s') \<in> set (run (groups_rx n) (w1, drop 4 a @ c # t))"
      using three s1' by simp
    from Suc.IH [OF this group] consider
        (inside) x a' where "drop 4 a = x @ a'" "s' = a' @ c # t"
      | (across) j where "sep_class c" "1 \<le> j" "j \<le> Suc i + n"
          "trailing_digits ((b @ take 4 a) @ drop 4 a) = 4 * j"
      by blast
    then show ?thesis
    proof cases
      case inside
      then have "a = (take 4 a @ x) @ a' \<and> s' = a' @ c # t"
        by (metis append_assoc append_take_drop_id)
      then show ?thesis by blast
    next
      case across
      then have "1 \<le> j \<and> j \<le> i + Suc n \<and> trailing_digits (b @ a) = 4 * j" by simp
      with across(1) show ?thesis by blast
    qed
  next
    case take
    show ?thesis
    proof (cases "drop 4 a")
      case Nil
      then have "take 4 a = a" using la by simp
      with group have "1 \<le> Suc i \<and> Suc i \<le> i + Suc n \<and> trailing_digits (b @ a) = 4 * Suc i"
        by simp
      moreover have "sep_class c" using take s1' Nil by simp
      ultimately show ?thesis by blast
    next
      case (Cons z a2)
      then have s2: "s2 = a2 @ c # t" and z: "sep_class z" using take s1' by simp_all
      have a: "a = (take 4 a @ [z]) @ a2"
        using Cons by (metis append_Cons append_Nil append_assoc append_take_drop_id)
      have "trailing_digits ((b @ take 4 a) @ [z]) = 0"
        using sep_not_digit [OF z] by (rule trailing_digits_other)
      then have start: "trailing_digits (b @ take 4 a @ [z]) = 4 * 0" by simp
      have "(w', s') \<in> set (run (groups_rx n) (w2, a2 @ c # t))" using three s2 by simp
      from Suc.IH [OF this start] consider
          (inside) x a' where "a2 = x @ a'" "s' = a' @ c # t"
        | (across) j where "sep_class c" "1 \<le> j" "j \<le> 0 + n"
            "trailing_digits ((b @ take 4 a @ [z]) @ a2) = 4 * j"
        by blast
      then show ?thesis
      proof cases
        case inside
        with a have "a = (take 4 a @ [z] @ x) @ a' \<and> s' = a' @ c # t" by simp
        then show ?thesis by blast
      next
        case across
        have "b @ a = (b @ take 4 a @ [z]) @ a2" using a by simp
        with across have "1 \<le> j \<and> j \<le> i + Suc n \<and> trailing_digits (b @ a) = 4 * j" by simp
        with across(1) show ?thesis by blast
      qed
    qed
  qed
qed

lemma groups_rx_first:
  assumes "(w', s') \<in> set (run (groups_rx n) (w, s))"
  shows "4 \<le> length s \<and> list_all is_digit (take 4 s)"
proof -
  from assms obtain w1 s1 where "(w1, s1) \<in> set (rep_run is_digit 4 (Some 4) (w, s))"
    by (cases n) auto
  from rep_run_exact_end [OF this] show ?thesis by simp
qed

lemma run_Bnd_then:
  "(w', s') \<in> set (run (Seq Bnd r) (w, s)) \<Longrightarrow>
   w \<noteq> (case s of [] \<Rightarrow> False | y # ys \<Rightarrow> is_word y) \<and> (w', s') \<in> set (run r (w, s))"
  by (auto split: if_splits)

lemma card16_within:
  assumes "\<not> is_digit c"
      and "\<not> (sep_class c \<and> (trailing_digits (b @ a) = 4 \<or> trailing_digits (b @ a) = 8
                               \<or> trailing_digits (b @ a) = 12))"
      and "(w', s') \<in> set (run card16_rx (b \<noteq> [] \<and> is_word (last b), a @ c # t))"
  shows "\<exists>x a'. a = x @ a' \<and> s' = a' @ c # t"
proof -
  let ?w = "b \<noteq> [] \<and> is_word (last b)"
  from assms(3) have "(w', s') \<in> set (run (Seq Bnd (groups_rx 3)) (?w, a @ c # t))"
    by (simp only: card16_rx_groups)
  from run_Bnd_then [OF this]
  have bnd: "?w \<noteq> (case a @ c # t of [] \<Rightarrow> False | y # ys \<Rightarrow> is_word y)"
    and m: "(w', s') \<in> set (run (groups_rx 3) (?w, a @ c # t))"
    by blast+
  from groups_rx_first [OF m] have "4 \<le> length (a @ c # t)"
    and "list_all is_digit (take 4 (a @ c # t))" by simp_all
  then have "is_digit (hd (a @ c # t))" by (cases "a @ c # t") simp_all
  then have "is_word (hd (a @ c # t))" by (rule is_digit_word)
  then have "\<not> ?w" using bnd by (cases "a @ c # t") simp_all
  then have "b = [] \<or> \<not> is_word (last b)" by blast
  then have "trailing_digits b = 4 * 0" using trailing_digits_boundary by simp
  from groups_rx_within [OF assms(1) m this] consider
      (inside) "\<exists>x a'. a = x @ a' \<and> s' = a' @ c # t"
    | (across) j where "sep_class c" "1 \<le> j" "j \<le> 3" "trailing_digits (b @ a) = 4 * j"
    by auto
  then show ?thesis
  proof cases
    case inside
    then show ?thesis .
  next
    case across
    then have "j = 1 \<or> j = 2 \<or> j = 3" by arith
    with across assms(2) show ?thesis by auto
  qed
qed

text \<open>
  If no match that starts in front of a character runs across it, the scan arrives just
  behind that character.
\<close>

lemma findall_from_within:
  assumes "\<And>a1 a2 w' s'. a = a1 @ a2 \<Longrightarrow>
             (w', s') \<in> set (run r (a1 \<noteq> [] \<and> is_word (last a1), a2 @ c # t)) \<Longrightarrow>
             \<exists>x a'. a2 = x @ a' \<and> s' = a' @ c # t"
  shows "\<exists>ms. findall_from r (False, a @ c # t) = ms @ findall_from r (is_word c, t)"
proof -
  have "\<forall>a1. a = a1 @ a2 \<longrightarrow>
          (\<exists>ms. findall_from r (a1 \<noteq> [] \<and> is_word (last a1), a2 @ c # t)
                = ms @ findall_from r (is_word c, t))" for a2
  proof (induction a2 rule: length_induct)
    case (1 a2)
    show ?case
    proof (intro allI impI)
      fix a1 assume split: "a = a1 @ a2"
      let ?w = "a1 \<noteq> [] \<and> is_word (last a1)"
      have step: "\<exists>ms. (case a2 @ c # t of [] \<Rightarrow> [] | y # ys \<Rightarrow> findall_from r (is_word y, ys))
                    = ms @ findall_from r (is_word c, t)"
      proof (cases a2)
        case Nil
        then show ?thesis by simp
      next
        case (Cons y a3)
        then have "a = (a1 @ [y]) @ a3" using split by simp
        moreover have "length a3 < length a2" using Cons by simp
        ultimately have "\<exists>ms. findall_from r (a1 @ [y] \<noteq> [] \<and> is_word (last (a1 @ [y])),
                                 a3 @ c # t)
                             = ms @ findall_from r (is_word c, t)"
          using "1.IH" by blast
        with Cons show ?thesis by simp
      qed
      show "\<exists>ms. findall_from r (?w, a2 @ c # t) = ms @ findall_from r (is_word c, t)"
      proof (cases "run r (?w, a2 @ c # t)")
        case Nil
        then have "findall_from r (?w, a2 @ c # t)
               = (case a2 @ c # t of [] \<Rightarrow> [] | y # ys \<Rightarrow> findall_from r (is_word y, ys))"
          by (subst findall_from.simps) simp
        with step show ?thesis by simp
      next
        case (Cons m rest)
        obtain w' s' where m: "m = (w', s')" by (cases m)
        have mem: "(w', s') \<in> set (run r (?w, a2 @ c # t))" using Cons m by simp
        from assms [OF split mem] obtain x a' where a2: "a2 = x @ a'" and s': "s' = a' @ c # t"
          by blast
        from run_consumes [OF mem] obtain x' where
          x': "a2 @ c # t = x' @ s'" "w' = (if x' = [] then ?w else is_word (last x'))"
          by blast
        from x'(1) a2 s' have "x' = x" by simp
        with x'(2) have w': "w' = (if x = [] then ?w else is_word (last x))" by simp
        show ?thesis
        proof (cases "x = []")
          case True
          then have "findall_from r (?w, a2 @ c # t)
                 = [] # (case a2 @ c # t of [] \<Rightarrow> [] | y # ys \<Rightarrow> findall_from r (is_word y, ys))"
            using Cons m a2 s' by (subst findall_from.simps) simp
          moreover from step obtain ms where
            "(case a2 @ c # t of [] \<Rightarrow> [] | y # ys \<Rightarrow> findall_from r (is_word y, ys))
             = ms @ findall_from r (is_word c, t)" by blast
          ultimately have "findall_from r (?w, a2 @ c # t)
                           = ([] # ms) @ findall_from r (is_word c, t)"
            by simp
          then show ?thesis by (rule exI)
        next
          case False
          then have shorter: "length a' < length a2" using a2 by simp
          then have here: "findall_from r (?w, a2 @ c # t)
                 = take (length (a2 @ c # t) - length s') (a2 @ c # t)
                   # findall_from r (w', a' @ c # t)"
            using Cons m s' by (subst findall_from.simps) simp
          have flag: "w' = (a1 @ x \<noteq> [] \<and> is_word (last (a1 @ x)))"
            using w' False by simp
          have "a = (a1 @ x) @ a'" using split a2 by simp
          then have "\<exists>ms. findall_from r (a1 @ x \<noteq> [] \<and> is_word (last (a1 @ x)), a' @ c # t)
                          = ms @ findall_from r (is_word c, t)"
            using "1.IH" shorter by blast
          then obtain ms where "findall_from r (w', a' @ c # t)
                                = ms @ findall_from r (is_word c, t)"
            unfolding flag by blast
          with here have "findall_from r (?w, a2 @ c # t)
                 = (take (length (a2 @ c # t) - length s') (a2 @ c # t) # ms)
                   @ findall_from r (is_word c, t)"
            by simp
          then show ?thesis by (rule exI)
        qed
      qed
    qed
  qed
  from this [of a, rule_format, of "[]"]
  show ?thesis by simp
qed

text \<open>The scan reaches the numeral with the boundary in front of it.\<close>

lemma findall_card16_reaches:
  assumes before: "pre = [] \<or> \<not> is_word (last pre)"
      and clear: "\<not> digits_then_separator pre"
  shows "\<exists>ms. findall card16_rx (pre @ t) = ms @ findall_from card16_rx (False, t)"
proof (cases pre rule: rev_cases)
  case Nil
  then show ?thesis by (simp add: findall_def)
next
  case (snoc a c)
  have nw: "\<not> is_word c" using before snoc by simp
  then have nd: "\<not> is_digit c" using is_digit_word by blast
  have far: "\<not> (sep_class c \<and> (trailing_digits a = 4 \<or> trailing_digits a = 8
                                 \<or> trailing_digits a = 12))"
    using clear snoc by (simp add: digits_then_separator_def)
  have "\<exists>ms. findall_from card16_rx (False, a @ c # t)
             = ms @ findall_from card16_rx (is_word c, t)"
  proof (rule findall_from_within)
    fix a1 a2 w' s'
    assume split: "a = a1 @ a2"
      and m: "(w', s') \<in> set (run card16_rx (a1 \<noteq> [] \<and> is_word (last a1), a2 @ c # t))"
    have "\<not> (sep_class c \<and> (trailing_digits (a1 @ a2) = 4 \<or> trailing_digits (a1 @ a2) = 8
                               \<or> trailing_digits (a1 @ a2) = 12))"
      using far split by simp
    with nd show "\<exists>x a'. a2 = x @ a' \<and> s' = a' @ c # t" using m by (rule card16_within)
  qed
  then show ?thesis using nw snoc by (simp add: findall_def)
qed

lemma findall_card16_numeral:
  assumes "digit_group g1" "digit_group g2" "digit_group g3" "digit_group g4"
      and "card_separator s1" "card_separator s2" "card_separator s3"
      and before: "pre = [] \<or> \<not> is_word (last pre)"
      and after: "post = [] \<or> \<not> is_word (hd post)"
      and clear: "\<not> digits_then_separator pre"
  shows "g1 @ s1 # g2 @ s2 # g3 @ s3 # g4
         \<in> set (findall card16_rx (pre @ g1 @ s1 # g2 @ s2 # g3 @ s3 # g4 @ post))"
proof -
  let ?numeral = "g1 @ s1 # g2 @ s2 # g3 @ s3 # g4"
  have lens: "length g1 = 4" "length g2 = 4" "length g3 = 4" "length g4 = 4"
    using assms(1-4) by (simp_all add: digit_group_def)
  have m: "run card16_rx (False, g1 @ s1 # g2 @ s2 # g3 @ s3 # g4 @ post) = [(True, post)]"
    using assms(1-7) after by (rule run_card16_numeral)
  have "findall_from card16_rx (False, g1 @ s1 # g2 @ s2 # g3 @ s3 # g4 @ post)
        = take (length (g1 @ s1 # g2 @ s2 # g3 @ s3 # g4 @ post) - length post)
               (g1 @ s1 # g2 @ s2 # g3 @ s3 # g4 @ post)
          # findall_from card16_rx (True, post)"
    by (rule findall_from_match [OF m]) simp
  also have "take (length (g1 @ s1 # g2 @ s2 # g3 @ s3 # g4 @ post) - length post)
               (g1 @ s1 # g2 @ s2 # g3 @ s3 # g4 @ post) = ?numeral"
    using lens by simp
  finally have here: "findall_from card16_rx (False, g1 @ s1 # g2 @ s2 # g3 @ s3 # g4 @ post)
                      = ?numeral # findall_from card16_rx (True, post)" .
  obtain ms where "findall card16_rx (pre @ g1 @ s1 # g2 @ s2 # g3 @ s3 # g4 @ post)
                   = ms @ findall_from card16_rx (False, g1 @ s1 # g2 @ s2 # g3 @ s3 # g4 @ post)"
    using findall_card16_reaches [OF before clear] by blast
  with here show ?thesis by simp
qed

lemma digit_not_separator: "is_digit c \<Longrightarrow> c \<noteq> ord CHR '' '' \<and> c \<noteq> ord CHR ''-''"
  by (auto simp: is_digit_def ord_def split: if_splits)

lemma strip_digit_group:
  assumes "digit_group g"
  shows "remove_char CHR ''-'' (remove_char CHR '' '' g) = g"
proof -
  have "c \<noteq> ord CHR '' '' \<and> c \<noteq> ord CHR ''-''" if "c \<in> set g" for c
  proof -
    have "is_digit c" using assms that by (simp add: digit_group_def list_all_iff)
    then show ?thesis by (rule digit_not_separator)
  qed
  then show ?thesis by (simp add: remove_char_def)
qed

lemma strip_separator:
  "card_separator s \<Longrightarrow> remove_char CHR ''-'' (remove_char CHR '' '' (s # rest))
     = remove_char CHR ''-'' (remove_char CHR '' '' rest)"
  by (auto simp: card_separator_def remove_char_def)

lemma strip_append:
  "remove_char CHR ''-'' (remove_char CHR '' '' (xs @ ys))
   = remove_char CHR ''-'' (remove_char CHR '' '' xs)
     @ remove_char CHR ''-'' (remove_char CHR '' '' ys)"
  by (simp add: remove_char_def)

lemma strip_numeral:
  assumes "digit_group g1" "digit_group g2" "digit_group g3" "digit_group g4"
      and "card_separator s1" "card_separator s2" "card_separator s3"
  shows "remove_char CHR ''-'' (remove_char CHR '' '' (g1 @ s1 # g2 @ s2 # g3 @ s3 # g4))
         = g1 @ g2 @ g3 @ g4"
  by (simp only: strip_append strip_separator [OF assms(5)] strip_separator [OF assms(6)]
        strip_separator [OF assms(7)] strip_digit_group [OF assms(1)]
        strip_digit_group [OF assms(2)] strip_digit_group [OF assms(3)]
        strip_digit_group [OF assms(4)])

lemma card_example_groups:
  "digit_group (str ''4111'')" "digit_group (str ''2222'')" "digit_group (str ''3333'')"
  "digit_group (str ''4444'')" "card_separator (ord CHR ''-'')" "card_separator (ord CHR '' '')"
  by (simp_all add: digit_group_def card_separator_def is_digit_def str_def ord_def)

text \<open>
  C6, as the specification states it, fails. In "1234 4111-2222-3333-4444" the scan matches
  from the first digit group on, so the account stored is \<open>1234411122223333\<close>; in
  "ID4111-2222-3333-4444" the numeral does not start at a word boundary and nothing is
  stored. In neither case is \<open>4111222233334444\<close> among the bank accounts.
\<close>

theorem grouped_numeral_counterexample:
  "bankAccounts (intelligence (session_of (str ''s'')
     (update_intelligence (str ''s'') (str ''1234 4111-2222-3333-4444'') initial_world)))
   = [str ''1234411122223333'']
   \<and> bankAccounts (intelligence (session_of (str ''s'')
     (update_intelligence (str ''s'') (str ''ID4111-2222-3333-4444'') initial_world))) = []"
proof -
  have a: "found_bank_accounts (str ''1234 4111-2222-3333-4444'') = [str ''1234411122223333'']"
    by code_simp
  have b: "found_bank_accounts (str ''ID4111-2222-3333-4444'') = []"
    by code_simp
  show ?thesis
    by (simp add: session_of_unknown initial_world_def new_session_def extract_into_def a b
          fromkeys_def insert_key_def)
qed

text \<open>
  C6, amended. Take a text holding four groups of four digits with a hyphen or a space
  between neighbouring groups, such that the numeral is neither preceded nor followed directly
  by a word character (letter, digit, underscore), and such that the text before the numeral
  does not end with a run of exactly four, eight or twelve digits followed by exactly one
  hyphen or white-space character. Then \<open>update_intelligence\<close> on that text puts the sixteen
  digits, without the separators, into the bank accounts of the session, whatever the session
  held before. Digits, word characters and white space are those of \<open>\d\<close>, \<open>\w\<close> and \<open>\s\<close>;
  the text is any Python string.
\<close>

theorem grouped_numeral_extracted:
  assumes "digit_group g1" "digit_group g2" "digit_group g3" "digit_group g4"
      and "card_separator s1" "card_separator s2" "card_separator s3"
      and "pre = [] \<or> \<not> is_word (last pre)"
      and "post = [] \<or> \<not> is_word (hd post)"
      and "\<not> digits_then_separator pre"
  shows "g1 @ g2 @ g3 @ g4
         \<in> set (bankAccounts (intelligence (session_of session_id
                  (update_intelligence session_id
                     (pre @ g1 @ s1 # g2 @ s2 # g3 @ s3 # g4 @ post) w))))"
proof -
  let ?text = "pre @ g1 @ s1 # g2 @ s2 # g3 @ s3 # g4 @ post"
  have "g1 @ s1 # g2 @ s2 # g3 @ s3 # g4 \<in> set (findall card16_rx ?text)"
    using assms by (rule findall_card16_numeral)
  then have "remove_char CHR ''-'' (remove_char CHR '' '' (g1 @ s1 # g2 @ s2 # g3 @ s3 # g4))
             \<in> set (found_bank_accounts ?text)"
    by (simp add: found_bank_accounts_def Let_def)
  then have "g1 @ g2 @ g3 @ g4 \<in> set (found_bank_accounts ?text)"
    using strip_numeral [OF assms(1-7)] by simp
  then show ?thesis
    by (simp add: extract_into_def set_fromkeys)
qed

theorem grouped_numeral_extracted_witness:
  "str ''4111222233334444''
   \<in> set (bankAccounts (intelligence (session_of (str ''s'')
            (update_intelligence (str ''s'')
               (str ''Call 9876543210, card: 4111-2222 3333-4444.'') initial_world))))
   \<and> str ''4111222233334444''
   \<in> set (bankAccounts (intelligence (session_of (str ''s'')
            (update_intelligence (str ''s'') (str ''12345 4111-2222-3333-4444'')
               initial_world))))
   \<and> str ''4111222233334444''
   \<in> set (bankAccounts (intelligence (session_of (str ''s'')
            (update_intelligence (str ''s'') (str ''1234  4111-2222-3333-4444'')
               initial_world))))
   \<and> str ''4111222233334444''
   \<in> set (bankAccounts (intelligence (session_of (str ''s'')
            (update_intelligence (str ''s'') (8377 # str '' 4111-2222-3333-4444'')
               initial_world))))"
proof -
  have after: "str ''.'' = [] \<or> \<not> is_word (hd (str ''.''))"
    by (simp add: str_def ord_def is_word_def is_digit_def is_upper_def is_lower_def)
  have afterwards: "([] :: pystr) = [] \<or> \<not> is_word (hd [])"
    by simp
  have before_a: "str ''Call 9876543210, card: '' = []
                  \<or> \<not> is_word (last (str ''Call 9876543210, card: ''))"
    by (simp add: str_def ord_def is_word_def is_digit_def is_upper_def is_lower_def)
  have clear_a: "\<not> digits_then_separator (str ''Call 9876543210, card: '')"
    by (simp add: digits_then_separator_def trailing_digits_def str_def ord_def is_digit_def)
  have before_b: "str ''12345 '' = [] \<or> \<not> is_word (last (str ''12345 ''))"
    by (simp add: str_def ord_def is_word_def is_digit_def is_upper_def is_lower_def)
  have clear_b: "\<not> digits_then_separator (str ''12345 '')"
    by (simp add: digits_then_separator_def trailing_digits_def str_def ord_def is_digit_def)
  have before_c: "str ''1234  '' = [] \<or> \<not> is_word (last (str ''1234  ''))"
    by (simp add: str_def ord_def is_word_def is_digit_def is_upper_def is_lower_def)
  have clear_c: "\<not> digits_then_separator (str ''1234  '')"
    by (simp add: digits_then_separator_def trailing_digits_def str_def ord_def is_digit_def)
  have before_d: "8377 # str '' '' = [] \<or> \<not> is_word (last (8377 # str '' ''))"
    by (simp add: str_def ord_def is_word_def is_digit_def is_upper_def is_lower_def)
  have clear_d: "\<not> digits_then_separator (8377 # str '' '')"
    by (simp add: digits_then_separator_def trailing_digits_def str_def)
  note hyphens = card_example_groups(1-4) card_example_groups(5) card_example_groups(5)
    card_example_groups(5)
  note mixed = card_example_groups(1-4) card_example_groups(5) card_example_groups(6)
    card_example_groups(5)
  from grouped_numeral_extracted [OF mixed before_a after clear_a, of "str ''s''" initial_world]
    grouped_numeral_extracted [OF hyphens before_b afterwards clear_b,
      of "str ''s''" initial_world]
    grouped_numeral_extracted [OF hyphens before_c afterwards clear_c,
      of "str ''s''" initial_world]
    grouped_numeral_extracted [OF hyphens before_d afterwards clear_d,
      of "str ''s''" initial_world]
  show ?thesis by (simp add: str_def)
qed

section \<open>The heuristic score\<close>

lemma search_from_somewhere:
  assumes "\<And>w s. (run r (w, s) \<noteq> []) = P s"
  shows "search_from r (w, s) = somewhere P s"
  by (induction s arbitrary: w) (simp_all add: assms)

lemma contains_somewhere: "contains l s = somewhere (starts_with l) s"
proof (induction s)
  case Nil
  then show ?case by (cases l) simp_all
next
  case (Cons c s)
  then show ?case by simp
qed

lemma run_Lit_matches: "(run (Lit l) (w, s) \<noteq> []) = starts_with (str l) s"
  by simp

lemma re_search_Lit: "re_search (Lit l) s = contains (str l) s"
  unfolding re_search_def contains_somewhere
  by (rule search_from_somewhere) simp

lemma search_from_Alt:
  "search_from (Alt a b) c = (search_from a c \<or> search_from b c)"
proof (cases c)
  case (Pair w s)
  have "search_from (Alt a b) (w, s) = (search_from a (w, s) \<or> search_from b (w, s))"
    by (induction s arbitrary: w) auto
  with Pair show ?thesis by simp
qed

lemma re_search_Alt: "re_search (Alt a b) s = (re_search a s \<or> re_search b s)"
  by (simp add: re_search_def search_from_Alt)

lemma somewhere_or:
  "somewhere (\<lambda>t. P t \<or> Q t) s = (somewhere P s \<or> somewhere Q s)"
  by (induction s) auto

lemma somewhere_mono:
  "(\<And>t. P t \<Longrightarrow> Q t) \<Longrightarrow> somewhere P s \<Longrightarrow> somewhere Q s"
  by (induction s) auto

lemma somewhere_tail:
  assumes "\<not> P []" and "\<And>c cs. P (c # cs) \<Longrightarrow> somewhere Q cs"
  shows "somewhere P s \<Longrightarrow> somewhere Q s"
proof (induction s)
  case Nil
  with assms(1) show ?case by simp
next
  case (Cons c s)
  with assms(2) show ?case by auto
qed

lemma somewhere_drop: "P (drop n s) \<Longrightarrow> n \<le> length s \<Longrightarrow> somewhere P s"
proof (induction s arbitrary: n)
  case Nil
  then show ?case by simp
next
  case (Cons c s)
  then show ?case by (cases n) auto
qed

lemma somewhere_here: "P s \<Longrightarrow> somewhere P s"
  by (cases s) simp_all

text \<open>Where a greedy repetition without upper bound can stop.\<close>

lemma rep_run_ends:
  "snd ` set (rep_run p lo None (w, s))
   = {drop k s | k. lo \<le> k \<and> k \<le> length (takeWhile p s)}"
proof (induction s arbitrary: lo w)
  case Nil
  then show ?case by auto
next
  case (Cons c s)
  show ?case
  proof (cases "p c")
    case False
    then show ?thesis by auto
  next
    case True
    have IH: "snd ` set (rep_run p (lo - 1) None (is_word c, s))
              = {drop k s | k. lo - 1 \<le> k \<and> k \<le> length (takeWhile p s)}"
      by (rule Cons.IH)
    have "{drop k (c # s) | k. lo \<le> k \<and> k \<le> length (takeWhile p (c # s))}
          = {drop k s | k. lo - 1 \<le> k \<and> k \<le> length (takeWhile p s)}
            \<union> (if lo = 0 then {c # s} else {})" (is "?A = ?B")
    proof (intro set_eqI iffI)
      fix x assume "x \<in> ?A"
      then obtain k where k: "x = drop k (c # s)" "lo \<le> k" "k \<le> Suc (length (takeWhile p s))"
        using True by auto
      show "x \<in> ?B"
      proof (cases k)
        case 0
        with k show ?thesis by simp
      next
        case (Suc j)
        with k have "x = drop j s \<and> lo - 1 \<le> j \<and> j \<le> length (takeWhile p s)" by auto
        then show ?thesis by blast
      qed
    next
      fix x assume "x \<in> ?B"
      then consider k where "x = drop k s" "lo - 1 \<le> k" "k \<le> length (takeWhile p s)"
        | "lo = 0" "x = c # s" by (auto split: if_splits)
      then show "x \<in> ?A"
      proof cases
        case 1
        then have "x = drop (Suc k) (c # s) \<and> lo \<le> Suc k
                   \<and> Suc k \<le> length (takeWhile p (c # s))"
          using True by auto
        then show ?thesis by blast
      next
        case 2
        then have "x = drop 0 (c # s) \<and> lo \<le> 0 \<and> 0 \<le> length (takeWhile p (c # s))" by simp
        then show ?thesis by blast
      qed
    qed
    moreover have "snd ` set (rep_run p lo None (w, c # s))
                   = snd ` set (rep_run p (lo - 1) None (is_word c, s))
                     \<union> (if lo = 0 then {c # s} else {})"
      using True by (auto simp: image_Un)
    ultimately show ?thesis using IH by simp
  qed
qed

text \<open>A repetition followed by a pattern that does not look at the boundary flag.\<close>

lemma run_Rep_then:
  assumes "\<And>w s. (run r (w, s) \<noteq> []) = P s"
  shows "(run (Seq (Rep p lo None) r) (w, s) \<noteq> [])
         = (\<exists>k. lo \<le> k \<and> k \<le> length (takeWhile p s) \<and> P (drop k s))"
proof -
  have "(run (Seq (Rep p lo None) r) (w, s) \<noteq> [])
        = (\<exists>c \<in> set (rep_run p lo None (w, s)). run r c \<noteq> [])"
    by auto
  also have "\<dots> = (\<exists>c \<in> set (rep_run p lo None (w, s)). P (snd c))"
    using assms by (metis prod.collapse)
  also have "\<dots> = (\<exists>t \<in> snd ` set (rep_run p lo None (w, s)). P t)"
    by auto
  also have "\<dots> = (\<exists>k. lo \<le> k \<and> k \<le> length (takeWhile p s) \<and> P (drop k s))"
    unfolding rep_run_ends by auto
  finally show ?thesis .
qed

lemma starts_with_append:
  "starts_with (a @ b) s = (starts_with a s \<and> starts_with b (drop (length a) s))"
proof (induction a arbitrary: s)
  case Nil
  then show ?case by simp
next
  case (Cons x a)
  then show ?case by (cases s) auto
qed

lemma run_Lit_then:
  "(run (Seq (Lit l) r) (w, s) \<noteq> [])
   = (starts_with (str l) s
      \<and> run r (if l = [] then w else is_word (ord (last l)), drop (length l) s) \<noteq> [])"
  by simp

lemma run_Opt_then:
  "(run (Seq (Opt a) r) c \<noteq> []) = (run (Seq a r) c \<noteq> [] \<or> run r c \<noteq> [])"
  by auto

lemma run_then_end: "(run (Seq r (Lit [])) c \<noteq> []) = (run r c \<noteq> [])"
  by (cases "run r c") auto

lemma alts_one: "alts [l] = Lit l"
  by (simp add: alts_def)

lemma alts_more: "alts (l # l' # ls) = Alt (Lit l) (alts (l' # ls))"
  by (simp add: alts_def)

lemma run_alts:
  "ls \<noteq> [] \<Longrightarrow> (run (alts ls) (w, s) \<noteq> []) = list_ex (\<lambda>l. starts_with (str l) s) ls"
proof (induction ls rule: induct_list012)
  case 1
  then show ?case by simp
next
  case (2 l)
  then show ?case by (simp add: alts_one)
next
  case (3 l l' ls)
  then show ?case by (simp add: alts_more)
qed

lemma list_ex_prefixed:
  "list_ex (\<lambda>l. starts_with (str (a @ l)) s) ls
   = (starts_with (str a) s \<and> list_ex (\<lambda>l. starts_with (str l) (drop (length a) s)) ls)"
  by (induction ls) (auto simp: starts_with_append str_append)

lemma somewhere_list_ex:
  "somewhere (\<lambda>t. list_ex (\<lambda>x. P x t) xs) s = list_ex (\<lambda>x. somewhere (P x) s) xs"
proof (induction xs)
  case Nil
  show ?case by (induction s) simp_all
next
  case (Cons x xs)
  have "somewhere (\<lambda>t. list_ex (\<lambda>x. P x t) (x # xs)) s
        = somewhere (\<lambda>t. P x t \<or> list_ex (\<lambda>x. P x t) xs) s" by simp
  also have "\<dots> = (somewhere (P x) s \<or> somewhere (\<lambda>t. list_ex (\<lambda>x. P x t) xs) s)"
    by (rule somewhere_or)
  finally show ?case using Cons by simp
qed

lemma somewhere_bind:
  "(\<And>t. P t \<Longrightarrow> somewhere Q t) \<Longrightarrow> somewhere P s \<Longrightarrow> somewhere Q s"
proof (induction s)
  case Nil
  from Nil.prems(1) [of "[]"] Nil.prems(2) show ?case by simp
next
  case (Cons c s)
  from Cons.prems(2) consider "P (c # s)" | "somewhere P s" by auto
  then show ?case
  proof cases
    case 1
    then show ?thesis by (rule Cons.prems(1))
  next
    case 2
    then have "somewhere Q s" using Cons.IH Cons.prems(1) by blast
    then show ?thesis by simp
  qed
qed

text \<open>The UPI handle of the classifier.\<close>

lemma run_upi_handle:
  "(run upi_handle_rx (w, s) \<noteq> [])
   = list_ex (\<lambda>handle. starts_with (str (''@'' @ handle)) s) classifier_handles"
proof -
  have rx: "upi_handle_rx = Seq (Lit ''@'') (Seq (alts classifier_handles) (Lit []))"
    by (simp add: upi_handle_rx_def cat_def classifier_handles_def)
  have ne: "classifier_handles \<noteq> []" by (simp add: classifier_handles_def)
  show ?thesis
    unfolding rx list_ex_prefixed run_Lit_then run_then_end run_alts [OF ne] by simp
qed

lemma re_search_upi_handle: "re_search upi_handle_rx t = has_handle classifier_handles t"
proof -
  have "re_search upi_handle_rx t
        = somewhere (\<lambda>s. list_ex (\<lambda>handle. starts_with (str (''@'' @ handle)) s)
                             classifier_handles) t"
    unfolding re_search_def by (rule search_from_somewhere) (rule run_upi_handle)
  also have "\<dots> = list_ex (\<lambda>handle. somewhere (starts_with (str (''@'' @ handle))) t)
                            classifier_handles"
    by (rule somewhere_list_ex)
  finally show ?thesis by (simp add: has_handle_def contains_somewhere)
qed

text \<open>The run of ten or more digits.\<close>

lemma run_digits10:
  "(run (Seq (Rep is_digit 10 None) (Lit [])) (w, s) \<noteq> []) = (10 \<le> length (takeWhile is_digit s))"
proof -
  have "(run (Seq (Rep is_digit 10 None) (Lit [])) (w, s) \<noteq> [])
        = (\<exists>k. 10 \<le> k \<and> k \<le> length (takeWhile is_digit s) \<and> True)"
    by (rule run_Rep_then) simp
  then show ?thesis by auto
qed

lemma re_search_phone: "re_search phone_rx text = spec_digit_run 10 text"
proof -
  let ?D = "\<lambda>t. 10 \<le> length (takeWhile is_digit t)"
  let ?P = "\<lambda>t. starts_with (str ''+'') t \<and> ?D (drop 1 t)"
  have rx: "phone_rx = Seq (Opt (Lit ''+'')) (Seq (Rep is_digit 10 None) (Lit []))"
    by (simp add: phone_rx_def cat_def)
  have at: "(run phone_rx (w, s) \<noteq> []) = (?P s \<or> ?D s)" for w s
    unfolding rx run_Opt_then run_Lit_then run_digits10 by simp
  have "re_search phone_rx text = somewhere (\<lambda>t. ?P t \<or> ?D t) text"
    unfolding re_search_def by (rule search_from_somewhere) (rule at)
  also have "\<dots> = (somewhere ?P text \<or> somewhere ?D text)" by (rule somewhere_or)
  also have "\<dots> = somewhere ?D text"
  proof -
    have "somewhere ?D text" if "somewhere ?P text"
      using _ _ that
    proof (rule somewhere_tail)
      show "\<not> (starts_with (str ''+'') [] \<and> ?D (drop 1 []))" by (simp add: str_def)
      show "somewhere ?D cs" if "starts_with (str ''+'') (c # cs) \<and> ?D (drop 1 (c # cs))"
        for c cs
        using that by (simp add: somewhere_here)
    qed
    then show ?thesis by blast
  qed
  finally show ?thesis by (simp add: spec_digit_run_def)
qed

text \<open>The URL-like token.\<close>

lemma run_http:
  "(run (cat [Lit ''http'', Opt (Lit ''s''), Lit ''://'']) (w, s) \<noteq> [])
   = (starts_with (str ''http://'') s \<or> starts_with (str ''https://'') s)"
proof -
  have split_a: "str ''http://'' = str ''http'' @ str ''://''" by (simp add: str_def)
  have split_b: "str ''https://'' = str ''http'' @ str ''s'' @ str ''://''"
    by (simp add: str_def)
  have a: "starts_with (str ''http://'') s
           = (starts_with (str ''http'') s
              \<and> starts_with (str ''://'') (drop (length (str ''http'')) s))"
    by (subst split_a) (rule starts_with_append)
  have b: "starts_with (str ''https://'') s
           = (starts_with (str ''http'') s
              \<and> starts_with (str ''s'') (drop (length (str ''http'')) s)
              \<and> starts_with (str ''://'')
                  (drop (length (str ''s'')) (drop (length (str ''http'')) s)))"
    by (subst split_b) (simp only: starts_with_append)
  have rx: "cat [Lit ''http'', Opt (Lit ''s''), Lit ''://'']
            = Seq (Lit ''http'') (Seq (Opt (Lit ''s'')) (Seq (Lit ''://'') (Lit [])))"
    by (simp add: cat_def)
  show ?thesis
    unfolding rx a b run_Lit_then run_Opt_then run_then_end by auto
qed

lemma run_dot_tld:
  "(run (Seq (Lit ''.'') (Seq (alts classifier_tlds) (Lit []))) (w, s) \<noteq> [])
   = list_ex (\<lambda>tld. starts_with (str (''.'' @ tld)) s) classifier_tlds"
proof -
  have ne: "classifier_tlds \<noteq> []" by (simp add: classifier_tlds_def)
  show ?thesis
    unfolding list_ex_prefixed run_Lit_then run_then_end run_alts [OF ne] by simp
qed

lemma run_domain:
  "(run (cat [Rep is_word 1 None, Lit ''.'', alts classifier_tlds]) (w, s) \<noteq> [])
   = (\<exists>k. 1 \<le> k \<and> k \<le> length (takeWhile is_word s)
          \<and> list_ex (\<lambda>tld. starts_with (str (''.'' @ tld)) (drop k s)) classifier_tlds)"
proof -
  have rx: "cat [Rep is_word 1 None, Lit ''.'', alts classifier_tlds]
            = Seq (Rep is_word 1 None) (Seq (Lit ''.'') (Seq (alts classifier_tlds) (Lit [])))"
    by (simp add: cat_def)
  show ?thesis unfolding rx by (rule run_Rep_then) (rule run_dot_tld)
qed

lemma word_dot_tld_reached:
  assumes "1 \<le> k" and "k \<le> length (takeWhile is_word s)"
      and "list_ex (\<lambda>tld. starts_with (str (''.'' @ tld)) (drop k s)) classifier_tlds"
  shows "somewhere (word_dot_tld classifier_tlds) s"
proof -
  obtain j where k: "k = Suc j" using assms(1) by (cases k) auto
  have j_run: "j < length (takeWhile is_word s)" using assms(2) k by simp
  have j_len: "j < length s" using j_run length_takeWhile_le [of is_word s] by simp
  have "takeWhile is_word s ! j \<in> set (takeWhile is_word s)" using j_run by simp
  then have "is_word (takeWhile is_word s ! j)" by (auto dest: set_takeWhileD)
  then have word: "is_word (s ! j)" using j_run by (simp add: takeWhile_nth)
  have "drop j s = s ! j # drop k s" using j_len k by (simp add: Cons_nth_drop_Suc)
  then have "word_dot_tld classifier_tlds (drop j s)" using word assms(3) by (simp add: word_dot_tld_def)
  then show ?thesis using j_len by (intro somewhere_drop [of _ j]) simp_all
qed

lemma re_search_domain:
  "re_search (cat [Rep is_word 1 None, Lit ''.'', alts classifier_tlds]) t
   = somewhere (word_dot_tld classifier_tlds) t"
proof -
  let ?Q = "\<lambda>s. \<exists>k. 1 \<le> k \<and> k \<le> length (takeWhile is_word s)
          \<and> list_ex (\<lambda>tld. starts_with (str (''.'' @ tld)) (drop k s)) classifier_tlds"
  have "re_search (cat [Rep is_word 1 None, Lit ''.'', alts classifier_tlds]) t = somewhere ?Q t"
    unfolding re_search_def by (rule search_from_somewhere) (rule run_domain)
  also have "\<dots> = somewhere (word_dot_tld classifier_tlds) t"
  proof
    assume "somewhere ?Q t"
    then show "somewhere (word_dot_tld classifier_tlds) t"
      by (rule somewhere_bind [rotated]) (auto intro: word_dot_tld_reached)
  next
    assume "somewhere (word_dot_tld classifier_tlds) t"
    then show "somewhere ?Q t"
    proof (rule somewhere_mono [rotated])
      fix s assume "word_dot_tld classifier_tlds s"
      then obtain c cs where s: "s = c # cs" "is_word c"
        "list_ex (\<lambda>tld. starts_with (str (''.'' @ tld)) cs) classifier_tlds"
        by (cases s) (auto simp: word_dot_tld_def)
      then have "1 \<le> (1::nat) \<and> 1 \<le> length (takeWhile is_word s)
                 \<and> list_ex (\<lambda>tld. starts_with (str (''.'' @ tld)) (drop 1 s)) classifier_tlds"
        by simp
      then show "?Q s" by blast
    qed
  qed
  finally show ?thesis .
qed

lemma re_search_url: "re_search url_rx t = has_url_token classifier_tlds t"
proof -
  have rx: "url_rx = Alt (cat [Lit ''http'', Opt (Lit ''s''), Lit ''://''])
                    (Alt (Lit ''www.'') (cat [Rep is_word 1 None, Lit ''.'', alts classifier_tlds]))"
    by (simp add: url_rx_def classifier_tlds_def)
  have "re_search (cat [Lit ''http'', Opt (Lit ''s''), Lit ''://'']) t
        = somewhere (\<lambda>s. starts_with (str ''http://'') s \<or> starts_with (str ''https://'') s) t"
    unfolding re_search_def by (rule search_from_somewhere) (rule run_http)
  also have "\<dots> = (contains (str ''http://'') t \<or> contains (str ''https://'') t)"
    by (simp add: somewhere_or contains_somewhere)
  finally show ?thesis
    unfolding rx has_url_token_def re_search_Alt re_search_Lit re_search_domain by simp
qed

text \<open>The vocabularies hold no word twice, so counting their hits counts words.\<close>

lemma count_in_spec: "distinct words \<Longrightarrow> count_in words t = spec_count words t"
proof -
  assume d: "distinct words"
  have "{word \<in> set words. contains (str word) t}
        = set (filter (\<lambda>word. contains (str word) t) words)"
    by auto
  moreover have "distinct (filter (\<lambda>word. contains (str word) t) words)" using d by simp
  ultimately show ?thesis
    unfolding count_in_def spec_count_def by (simp only: distinct_card)
qed

lemma distinct_vocabularies:
  "distinct urgency_words" "distinct threat_words" "distinct action_words"
  "distinct request_words"
  by (simp_all add: urgency_words_def threat_words_def action_words_def request_words_def)

lemma scam_score_spec: "scam_score text = spec_score text"
  by (simp add: scam_score_def spec_score_def score_with_def Let_def count_in_spec
        distinct_vocabularies
        re_search_url re_search_upi_handle re_search_phone)

lemma first_category_None:
  "(first_category cats t = None)
   = (\<forall>(name, patterns) \<in> set cats. \<forall>pattern \<in> set patterns. \<not> re_search pattern t)"
  by (induction cats t rule: first_category.induct) (auto simp: list_ex_iff)

lemma no_category_quick:
  "first_category SCAM_PATTERNS (lower (str ''send it quickly to 9876543210 www.x.zz'')) = None"
  by code_simp

lemma no_category_polite:
  "first_category SCAM_PATTERNS (lower (str ''please enter'')) = None"
  by code_simp

lemma detect_quick:
  "detect (str ''send it quickly to 9876543210 www.x.zz'') = (True, Some ''generic_scam'')"
  by code_simp

lemma detect_polite: "detect (str ''please enter'') = (False, None)"
  by code_simp

lemma no_category_accent:
  "first_category SCAM_PATTERNS (lower (233 # str ''.com 1234567890'')) = None"
  by code_simp

lemma detect_accent: "detect (233 # str ''.com 1234567890'') = (True, Some ''generic_scam'')"
  by code_simp

text \<open>The score with the lists of the specification, on two texts.\<close>

lemma listed_score_counts:
  "listed_score text =
     (let t = lower text in
      real (count_in urgency_words t) * 2 + real (count_in threat_words t) * 3
      + real (count_in action_words t) * 1.5 + real (count_in request_words t) * 2
      + (if has_url_token listed_tlds t then 3 else 0)
      + (if has_handle upi_handles t then 2 else 0)
      + (if spec_digit_run 10 text then 1 else 0))"
  by (simp add: listed_score_def score_with_def Let_def count_in_spec distinct_vocabularies)

lemma listed_score_handle: "listed_score (str ''pay x@axl quickly'') = 4"
proof -
  let ?t = "lower (str ''pay x@axl quickly'')"
  have "count_in urgency_words ?t = 1" "count_in threat_words ?t = 0"
    "count_in action_words ?t = 0" "count_in request_words ?t = 0"
    by code_simp+
  moreover have "\<not> has_url_token listed_tlds ?t" by code_simp
  moreover have "has_handle upi_handles ?t" by code_simp
  moreover have "\<not> spec_digit_run 10 (str ''pay x@axl quickly'')" by code_simp
  ultimately show ?thesis by (simp add: listed_score_counts Let_def)
qed

lemma listed_score_domain: "listed_score (str ''visit shop.online quickly'') = 5"
proof -
  let ?t = "lower (str ''visit shop.online quickly'')"
  have "count_in urgency_words ?t = 1" "count_in threat_words ?t = 0"
    "count_in action_words ?t = 0" "count_in request_words ?t = 0"
    by code_simp+
  moreover have "has_url_token listed_tlds ?t" by code_simp
  moreover have "\<not> has_handle upi_handles ?t" by code_simp
  moreover have "\<not> spec_digit_run 10 (str ''visit shop.online quickly'')" by code_simp
  ultimately show ?thesis by (simp add: listed_score_counts Let_def)
qed

lemma no_category_handle:
  "first_category SCAM_PATTERNS (lower (str ''pay x@axl quickly'')) = None"
  by code_simp

lemma no_category_domain:
  "first_category SCAM_PATTERNS (lower (str ''visit shop.online quickly'')) = None"
  by code_simp

lemma detect_handle: "detect (str ''pay x@axl quickly'') = (False, None)"
  by code_simp

lemma detect_domain: "detect (str ''visit shop.online quickly'') = (False, None)"
  by code_simp

text \<open>
  C5, as the specification states it, fails. The known UPI handles of the specification are
  twelve and its top-level domains are twelve; the classifier looks for eight of the handles
  and seven of the domains. No category pattern is found in "pay x@axl quickly" and in
  "visit shop.online quickly". With the lists of the specification the first scores 4 (one
  urgency word and the handle \<open>axl\<close>) and the second 5 (one urgency word and a URL-like token
  ending in \<open>online\<close>), so both would be \<open>(True, generic_scam)\<close>; the classifier answers
  \<open>(False, None)\<close> to both.
\<close>

theorem heuristic_listed_counterexample:
  "first_category SCAM_PATTERNS (lower (str ''pay x@axl quickly'')) = None
   \<and> listed_score (str ''pay x@axl quickly'') = 4
   \<and> detect (str ''pay x@axl quickly'') = (False, None)
   \<and> first_category SCAM_PATTERNS (lower (str ''visit shop.online quickly'')) = None
   \<and> listed_score (str ''visit shop.online quickly'') = 5
   \<and> detect (str ''visit shop.online quickly'') = (False, None)"
  by (simp only: no_category_handle no_category_domain listed_score_handle
        listed_score_domain detect_handle detect_domain simp_thms)

text \<open>
  C5, amended. For every text in which none of the category patterns is found, the score that
  the classifier computes is twice the number of urgency words, plus three times the number
  of threat words, plus one and a half times the number of action words, plus twice the
  number of sensitive-request words that occur in the lower-cased text, plus 3 if the
  lower-cased text holds a URL-like token (\<open>http://\<close>, \<open>https://\<close>, \<open>www.\<close>, or a word character
  followed by a dot and one of com, in, org, net, xyz, click, top), plus 2 if it holds \<open>@\<close>
  followed by one of the eight UPI handles paytm, phonepe, gpay, upi, ybl, oksbi, okaxis,
  okicici, plus 1 if the text holds a run of ten or more digits; and the classifier answers
  \<open>(True, generic_scam)\<close> exactly when this score is at least 4 and \<open>(False, None)\<close>
  otherwise. The text is any Python string: word characters, digits and lower-casing are
  those of Unicode.
\<close>

theorem heuristic_fallback:
  assumes "\<forall>(name, patterns) \<in> set SCAM_PATTERNS. \<forall>pattern \<in> set patterns.
             \<not> re_search pattern (lower text)"
  shows "scam_score text = spec_score text
         \<and> detect text = (if 4 \<le> spec_score text then (True, Some ''generic_scam'')
                          else (False, None))"
proof -
  have "first_category SCAM_PATTERNS (lower text) = None"
    using assms by (simp add: first_category_None)
  then show ?thesis by (simp add: detect_def scam_score_spec)
qed

theorem heuristic_fallback_witness:
  "detect (str ''send it quickly to 9876543210 www.x.zz'') = (True, Some ''generic_scam'')
   \<and> 4 \<le> spec_score (str ''send it quickly to 9876543210 www.x.zz'')
   \<and> detect (str ''please enter'') = (False, None)
   \<and> \<not> 4 \<le> spec_score (str ''please enter'')
   \<and> detect (233 # str ''.com 1234567890'') = (True, Some ''generic_scam'')
   \<and> 4 \<le> spec_score (233 # str ''.com 1234567890'')"
proof -
  have a: "\<forall>(name, patterns) \<in> set SCAM_PATTERNS. \<forall>pattern \<in> set patterns.
             \<not> re_search pattern (lower (str ''send it quickly to 9876543210 www.x.zz''))"
    using no_category_quick by (simp only: first_category_None)
  have b: "\<forall>(name, patterns) \<in> set SCAM_PATTERNS. \<forall>pattern \<in> set patterns.
             \<not> re_search pattern (lower (str ''please enter''))"
    using no_category_polite by (simp only: first_category_None)
  from heuristic_fallback [OF a] detect_quick
  have one: "4 \<le> spec_score (str ''send it quickly to 9876543210 www.x.zz'')"
    by (auto split: if_splits)
  from heuristic_fallback [OF b] detect_polite
  have two: "\<not> 4 \<le> spec_score (str ''please enter'')"
    by (auto split: if_splits)
  have c: "\<forall>(name, patterns) \<in> set SCAM_PATTERNS. \<forall>pattern \<in> set patterns.
             \<not> re_search pattern (lower (233 # str ''.com 1234567890''))"
    using no_category_accent by (simp only: first_category_None)
  from heuristic_fallback [OF c] detect_accent
  have three: "4 \<le> spec_score (233 # str ''.com 1234567890'')"
    by (auto split: if_splits)
  from one two three detect_quick detect_polite detect_accent show ?thesis by blast
qed

end
